theory Spec2Isabelle
  imports Main "HOL-Library.Sublist"
begin

section \<open>Go strings\<close>

text \<open>
  A Go \<^verbatim>\<open>string\<close> is a sequence of bytes, read as UTF-8 where a function looks at
  runes.  It is modelled as a \<^typ>\<open>string\<close>, a list of 8-bit characters.
\<close>

abbreviation nl :: char where "nl \<equiv> CHR 0x0A"

text \<open>
  \<^verbatim>\<open>unicode.IsSpace\<close> holds of the code points U+0009..U+000D, U+0020, U+0085, U+00A0,
  U+1680, U+2000..U+200A, U+2028, U+2029, U+202F, U+205F and U+3000.  The list gives
  their UTF-8 encodings.
\<close>

definition space_runes :: "string list" where
  "space_runes =
     [[CHR 0x09], [CHR 0x0A], [CHR 0x0B], [CHR 0x0C], [CHR 0x0D], [CHR 0x20],
      [CHR 0xC2, CHR 0x85], [CHR 0xC2, CHR 0xA0],
      [CHR 0xE1, CHR 0x9A, CHR 0x80],
      [CHR 0xE2, CHR 0x80, CHR 0x80], [CHR 0xE2, CHR 0x80, CHR 0x81],
      [CHR 0xE2, CHR 0x80, CHR 0x82], [CHR 0xE2, CHR 0x80, CHR 0x83],
      [CHR 0xE2, CHR 0x80, CHR 0x84], [CHR 0xE2, CHR 0x80, CHR 0x85],
      [CHR 0xE2, CHR 0x80, CHR 0x86], [CHR 0xE2, CHR 0x80, CHR 0x87],
      [CHR 0xE2, CHR 0x80, CHR 0x88], [CHR 0xE2, CHR 0x80, CHR 0x89],
      [CHR 0xE2, CHR 0x80, CHR 0x8A],
      [CHR 0xE2, CHR 0x80, CHR 0xA8], [CHR 0xE2, CHR 0x80, CHR 0xA9],
      [CHR 0xE2, CHR 0x80, CHR 0xAF],
      [CHR 0xE2, CHR 0x81, CHR 0x9F],
      [CHR 0xE3, CHR 0x80, CHR 0x80]]"

text \<open>
  The number of bytes of the rune from \<open>runes\<close> that \<open>s\<close> starts with, and 0 when it starts
  with none of them.
\<close>

definition lead_width :: "string list \<Rightarrow> string \<Rightarrow> nat" where
  "lead_width runes s = (case find (\<lambda>e. prefix e s) runes of None \<Rightarrow> 0 | Some e \<Rightarrow> length e)"

text \<open>
  \<^verbatim>\<open>strings.TrimLeftFunc(s, unicode.IsSpace)\<close>: runes are decoded from the front and
  dropped while they are white space.  A byte that starts no valid encoding decodes to
  U+FFFD, which is not white space, so trimming stops there.
\<close>

function trim_lead :: "string list \<Rightarrow> string \<Rightarrow> string" where
  "trim_lead runes s =
     (if lead_width runes s = 0 \<or> s = [] then s
      else trim_lead runes (drop (lead_width runes s) s))"
  by pat_completeness auto
termination
  by (relation "measure (\<lambda>(runes, s). length s)") auto

declare trim_lead.simps [simp del]

definition TrimLeftSpace :: "string \<Rightarrow> string" where
  "TrimLeftSpace s = trim_lead space_runes s"

text \<open>
  \<^verbatim>\<open>strings.TrimRightFunc(s, unicode.IsSpace)\<close>: runes are decoded from the back
  (\<^verbatim>\<open>utf8.DecodeLastRuneInString\<close>); the last rune is a white-space rune exactly when
  the string ends with its encoding.
\<close>

definition TrimRightSpace :: "string \<Rightarrow> string" where
  "TrimRightSpace s = rev (trim_lead (map rev space_runes) (rev s))"

text \<open>
  \<^verbatim>\<open>strings.TrimSpace\<close>; its ASCII fast path and its Unicode path remove the same
  runes, from both ends.
\<close>

definition TrimSpace :: "string \<Rightarrow> string" where
  "TrimSpace s = TrimRightSpace (TrimLeftSpace s)"

text \<open>
  \<^verbatim>\<open>strings.TrimLeft(s, cutset)\<close> for an ASCII cutset: leading bytes of the cutset are
  dropped.
\<close>

definition TrimLeft :: "string \<Rightarrow> string \<Rightarrow> string" where
  "TrimLeft s cutset = dropWhile (\<lambda>c. c \<in> set cutset) s"

text \<open>
  \<^verbatim>\<open>strings.Split(s, sep)\<close> for a separator of one byte: the pieces between the
  separators, always at least one piece.
\<close>

fun Split :: "string \<Rightarrow> char \<Rightarrow> string list" where
  "Split [] sep = [[]]"
| "Split (c # cs) sep =
     (if c = sep then [] # Split cs sep
      else (case Split cs sep of
              [] \<Rightarrow> [[c]]
            | l # ls \<Rightarrow> (c # l) # ls))"

text \<open>
  \<^verbatim>\<open>strings.EqualFold(s, "e")\<close>: under Unicode simple case folding the letter e is
  equal to itself and to E only.
\<close>

definition EqualFold_e :: "string \<Rightarrow> bool" where
  "EqualFold_e s = (s = ''e'' \<or> s = ''E'')"

section \<open>encoding/json\<close>

text \<open>
  \<^verbatim>\<open>json.Unmarshal\<close> first checks that the whole input is one JSON value (RFC 8259)
  surrounded by optional white space, then stores the value into the Go variable.  The
  model has the same two stages: the text is read into a \<open>json\<close> value, and the value is
  stored into a \<^verbatim>\<open>suggestionsPayload\<close>.
\<close>

datatype json =
    JNull
  | JBool bool
  | JNumber string
  | JString string
  | JArray "json list"
  | JObject "(string \<times> json) list"

datatype token =
    TLBrace | TRBrace | TLBrack | TRBrack | TColon | TComma
  | TString string | TNumber string | TTrue | TFalse | TNull

abbreviation dquote :: char where "dquote \<equiv> CHR 0x22"
abbreviation backslash :: char where "backslash \<equiv> CHR 0x5C"

definition is_digit :: "char \<Rightarrow> bool" where
  "is_digit c = (c \<in> set ''0123456789'')"

definition is_hex :: "char \<Rightarrow> bool" where
  "is_hex c = (c \<in> set ''0123456789abcdefABCDEF'')"

definition hex_val :: "char \<Rightarrow> nat" where
  "hex_val c =
     (if is_digit c then of_char c - 48
      else if c \<in> set ''abcdef'' then of_char c - 87
      else of_char c - 55)"

definition hex4 :: "string \<Rightarrow> nat" where
  "hex4 ds = foldl (\<lambda>a c. 16 * a + hex_val c) 0 (take 4 ds)"

subsection \<open>String literals\<close>

text \<open>
  The body of a string literal, from after the opening quote up to the closing one, as
  the scanner accepts it: no control character, and a backslash is followed by one of
  \<^verbatim>\<open>" \ / b f n r t\<close> or by \<^verbatim>\<open>u\<close> and four hexadecimal digits.
\<close>

fun scan_string :: "string \<Rightarrow> string option" where
  "scan_string [] = None"
| "scan_string (c # cs) =
     (if c = dquote then Some []
      else if c = backslash then
        (case cs of
           [] \<Rightarrow> None
         | e # cs' \<Rightarrow>
             if e \<in> set [dquote, backslash, CHR ''/'', CHR ''b'', CHR ''f'', CHR ''n'', CHR ''r'', CHR ''t'']
             then map_option (\<lambda>b. c # e # b) (scan_string cs')
             else if e = CHR ''u'' \<and> 4 \<le> length cs' \<and> list_all is_hex (take 4 cs')
             then map_option (\<lambda>b. c # e # take 4 cs' @ b) (scan_string (drop 4 cs'))
             else None)
      else if of_char c < (0x20 :: nat) then None
      else map_option (\<lambda>b. c # b) (scan_string cs))"

text \<open>
  \<^verbatim>\<open>utf8.DecodeRune\<close> on a byte from 0x80 up: the width of the well-formed encoding at
  the head of \<open>s\<close>, or 0 when there is none (Go then reads U+FFFD with width 1).
\<close>

definition cont_in :: "string \<Rightarrow> nat \<Rightarrow> nat \<Rightarrow> nat \<Rightarrow> bool" where
  "cont_in s i lo hi = (i < length s \<and> lo \<le> (of_char (s ! i) :: nat) \<and> (of_char (s ! i) :: nat) \<le> hi)"

definition utf8_width :: "string \<Rightarrow> nat" where
  "utf8_width s =
     (case s of
        [] \<Rightarrow> 0
      | c # _ \<Rightarrow>
          (let b = (of_char c :: nat) in
           if 0xC2 \<le> b \<and> b \<le> 0xDF then (if cont_in s 1 0x80 0xBF then 2 else 0)
           else if 0xE0 \<le> b \<and> b \<le> 0xEF then
             (if cont_in s 1 (if b = 0xE0 then 0xA0 else 0x80) (if b = 0xED then 0x9F else 0xBF)
                 \<and> cont_in s 2 0x80 0xBF
              then 3 else 0)
           else if 0xF0 \<le> b \<and> b \<le> 0xF4 then
             (if cont_in s 1 (if b = 0xF0 then 0x90 else 0x80) (if b = 0xF4 then 0x8F else 0xBF)
                 \<and> cont_in s 2 0x80 0xBF \<and> cont_in s 3 0x80 0xBF
              then 4 else 0)
           else 0))"

definition replacement_rune :: string where
  "replacement_rune = [CHR 0xEF, CHR 0xBF, CHR 0xBD]"

text \<open>\<^verbatim>\<open>utf8.EncodeRune\<close>: surrogates and values above U+10FFFF are written as U+FFFD.\<close>

definition utf8_encode :: "nat \<Rightarrow> string" where
  "utf8_encode r =
     (if r < 0x80 then [char_of r]
      else if r < 0x800 then [char_of (0xC0 + r div 0x40), char_of (0x80 + r mod 0x40)]
      else if (0xD800 \<le> r \<and> r < 0xE000) \<or> 0x10FFFF < r then replacement_rune
      else if r < 0x10000 then
        [char_of (0xE0 + r div 0x1000), char_of (0x80 + r div 0x40 mod 0x40),
         char_of (0x80 + r mod 0x40)]
      else
        [char_of (0xF0 + r div 0x40000), char_of (0x80 + r div 0x1000 mod 0x40),
         char_of (0x80 + r div 0x40 mod 0x40), char_of (0x80 + r mod 0x40)])"

definition unescape :: "char \<Rightarrow> char" where
  "unescape e =
     (if e = CHR ''b'' then CHR 0x08
      else if e = CHR ''f'' then CHR 0x0C
      else if e = CHR ''n'' then CHR 0x0A
      else if e = CHR ''r'' then CHR 0x0D
      else if e = CHR ''t'' then CHR 0x09
      else e)"

text \<open>
  Whether \<open>s\<close> starts with \<^verbatim>\<open>\uXXXX\<close> for a low surrogate, the second half of a
  UTF-16 pair.
\<close>

definition low_surrogate_escape :: "string \<Rightarrow> bool" where
  "low_surrogate_escape s =
     (6 \<le> length s \<and> s ! 0 = backslash \<and> s ! 1 = CHR ''u'' \<and> list_all is_hex (take 4 (drop 2 s))
      \<and> 0xDC00 \<le> hex4 (drop 2 s) \<and> hex4 (drop 2 s) < 0xE000)"

text \<open>
  \<^verbatim>\<open>unquote\<close>: the value of a scanned string body.  Escapes are replaced, a valid
  surrogate pair gives one rune, a lone surrogate gives U+FFFD, and bytes that are not
  well-formed UTF-8 are replaced by U+FFFD one by one.
\<close>

fun unquote :: "string \<Rightarrow> string" where
  "unquote [] = []"
| "unquote (c # cs) =
     (if c = backslash then
        (case cs of
           [] \<Rightarrow> []
         | e # cs' \<Rightarrow>
             if e = CHR ''u'' then
               (let r = hex4 cs'; rest = drop 4 cs' in
                if 0xD800 \<le> r \<and> r < 0xE000 then
                  (if r < 0xDC00 \<and> low_surrogate_escape rest
                   then utf8_encode ((r - 0xD800) * 0x400 + (hex4 (drop 2 rest) - 0xDC00) + 0x10000)
                          @ unquote (drop 6 rest)
                   else replacement_rune @ unquote rest)
                else utf8_encode r @ unquote rest)
             else unescape e # unquote cs')
      else if of_char c < (0x80 :: nat) then c # unquote cs
      else if utf8_width (c # cs) = 0 then replacement_rune @ unquote cs
      else take (utf8_width (c # cs)) (c # cs) @ unquote (drop (utf8_width (c # cs) - 1) cs))"

subsection \<open>Numbers\<close>

text \<open>
  The longest prefix of \<open>s\<close> that the scanner reads as a number, or \<open>None\<close> when the
  scanner reports an error inside it: an optional minus, then 0 or a digit sequence
  without leading zero, then an optional fraction and an optional exponent, each with
  at least one digit.
\<close>

definition scan_exponent :: "string \<Rightarrow> string option" where
  "scan_exponent s =
     (case s of
        [] \<Rightarrow> Some []
      | c # cs \<Rightarrow>
          if c = CHR ''e'' \<or> c = CHR ''E'' then
            (let sg = (case cs of [] \<Rightarrow> [] | d # _ \<Rightarrow> if d = CHR ''+'' \<or> d = CHR ''-'' then [d] else []);
                 ds = takeWhile is_digit (drop (length sg) cs)
             in if ds = [] then None else Some (c # sg @ ds))
          else Some [])"

definition scan_fraction :: "string \<Rightarrow> string option" where
  "scan_fraction s =
     (case s of
        [] \<Rightarrow> Some []
      | c # cs \<Rightarrow>
          if c = CHR ''.'' then
            (let ds = takeWhile is_digit cs
             in if ds = [] then None
                else map_option (\<lambda>e. c # ds @ e) (scan_exponent (dropWhile is_digit cs)))
          else scan_exponent s)"

definition scan_integer :: "string \<Rightarrow> string option" where
  "scan_integer s =
     (case s of
        [] \<Rightarrow> None
      | c # cs \<Rightarrow>
          if c = CHR ''0'' then map_option (\<lambda>f. c # f) (scan_fraction cs)
          else if is_digit c then
            map_option (\<lambda>f. c # takeWhile is_digit cs @ f) (scan_fraction (dropWhile is_digit cs))
          else None)"

definition scan_number :: "string \<Rightarrow> string option" where
  "scan_number s =
     (case s of
        [] \<Rightarrow> None
      | c # cs \<Rightarrow>
          if c = CHR ''-'' then map_option (\<lambda>n. c # n) (scan_integer cs)
          else scan_integer s)"

subsection \<open>Tokens\<close>

definition cons_token :: "token \<Rightarrow> token list option \<Rightarrow> token list option" where
  "cons_token t r = map_option (\<lambda>ts. t # ts) r"

fun lex :: "string \<Rightarrow> token list option" where
  "lex [] = Some []"
| "lex (c # cs) =
     (if c \<in> set [CHR 0x20, CHR 0x09, CHR 0x0D, CHR 0x0A] then lex cs
      else if c = CHR ''{'' then cons_token TLBrace (lex cs)
      else if c = CHR ''}'' then cons_token TRBrace (lex cs)
      else if c = CHR ''['' then cons_token TLBrack (lex cs)
      else if c = CHR '']'' then cons_token TRBrack (lex cs)
      else if c = CHR '':'' then cons_token TColon (lex cs)
      else if c = CHR '','' then cons_token TComma (lex cs)
      else if c = dquote then
        (case scan_string cs of
           None \<Rightarrow> None
         | Some body \<Rightarrow> cons_token (TString (unquote body)) (lex (drop (Suc (length body)) cs)))
      else if c = CHR ''-'' \<or> is_digit c then
        (case scan_number (c # cs) of
           None \<Rightarrow> None
         | Some num \<Rightarrow> cons_token (TNumber num) (lex (drop (length num - 1) cs)))
      else if prefix ''true'' (c # cs) then cons_token TTrue (lex (drop 3 cs))
      else if prefix ''false'' (c # cs) then cons_token TFalse (lex (drop 4 cs))
      else if prefix ''null'' (c # cs) then cons_token TNull (lex (drop 3 cs))
      else None)"

subsection \<open>Values\<close>

text \<open>
  The scanner's stack of open arrays and objects, here holding the members read so far
  (and, in an object, the key that waits for its value), and what the scanner expects
  next.
\<close>

datatype frame = FArray "json list" | FObject "(string \<times> json) list" "string option"

datatype mode = MValue | MValueOrEnd | MKeyOrEnd | MKey | MColon | MAfter | MDone json

text \<open>A complete value goes into the innermost open container, or ends the input.\<close>

fun reduce :: "json \<Rightarrow> frame list \<Rightarrow> (mode \<times> frame list) option" where
  "reduce v [] = Some (MDone v, [])"
| "reduce v (FArray es # st) = Some (MAfter, FArray (es @ [v]) # st)"
| "reduce v (FObject ms (Some k) # st) = Some (MAfter, FObject (ms @ [(k, v)]) None # st)"
| "reduce v (FObject ms None # st) = None"

text \<open>The scanner refuses more than 10000 open containers.\<close>

definition push :: "frame \<Rightarrow> mode \<Rightarrow> frame list \<Rightarrow> (mode \<times> frame list) option" where
  "push f m st = (if length st < 10000 then Some (m, f # st) else None)"

fun begin_value :: "frame list \<Rightarrow> token \<Rightarrow> (mode \<times> frame list) option" where
  "begin_value st TLBrack = push (FArray []) MValueOrEnd st"
| "begin_value st TLBrace = push (FObject [] None) MKeyOrEnd st"
| "begin_value st (TString s) = reduce (JString s) st"
| "begin_value st (TNumber n) = reduce (JNumber n) st"
| "begin_value st TTrue = reduce (JBool True) st"
| "begin_value st TFalse = reduce (JBool False) st"
| "begin_value st TNull = reduce JNull st"
| "begin_value st _ = None"

fun close_array :: "frame list \<Rightarrow> (mode \<times> frame list) option" where
  "close_array (FArray es # st) = reduce (JArray es) st"
| "close_array _ = None"

fun close_object :: "frame list \<Rightarrow> (mode \<times> frame list) option" where
  "close_object (FObject ms None # st) = reduce (JObject ms) st"
| "close_object _ = None"

fun begin_key :: "frame list \<Rightarrow> token \<Rightarrow> (mode \<times> frame list) option" where
  "begin_key (FObject ms None # st) (TString k) = Some (MColon, FObject ms (Some k) # st)"
| "begin_key _ _ = None"

fun after_value :: "frame list \<Rightarrow> token \<Rightarrow> (mode \<times> frame list) option" where
  "after_value (FArray es # st) TComma = Some (MValue, FArray es # st)"
| "after_value (FObject ms k # st) TComma = Some (MKey, FObject ms k # st)"
| "after_value st TRBrack = close_array st"
| "after_value st TRBrace = close_object st"
| "after_value _ _ = None"

fun step :: "mode \<Rightarrow> frame list \<Rightarrow> token \<Rightarrow> (mode \<times> frame list) option" where
  "step MValue st t = begin_value st t"
| "step MValueOrEnd st t = (if t = TRBrack then close_array st else begin_value st t)"
| "step MKeyOrEnd st t = (if t = TRBrace then close_object st else begin_key st t)"
| "step MKey st t = begin_key st t"
| "step MColon st t = (if t = TColon then Some (MValue, st) else None)"
| "step MAfter st t = after_value st t"
| "step (MDone v) st t = None"

fun run :: "mode \<Rightarrow> frame list \<Rightarrow> token list \<Rightarrow> json option" where
  "run m st [] = (case m of MDone v \<Rightarrow> Some v | _ \<Rightarrow> None)"
| "run m st (t # ts) = (case step m st t of None \<Rightarrow> None | Some (m', st') \<Rightarrow> run m' st' ts)"

definition json_parse :: "string \<Rightarrow> json option" where
  "json_parse s = (case lex s of None \<Rightarrow> None | Some ts \<Rightarrow> run MValue [] ts)"

subsection \<open>Storing a value into the payload\<close>

text \<open>
  \<^verbatim>\<open>type suggestionsPayload struct { Messages []string `json:"messages"` }\<close>

  An object key selects the field when it equals the field's name after case folding
  (\<^verbatim>\<open>foldName\<close>).  ASCII letters fold to upper case, U+017F to S and U+212A to K; every
  other rune folds to a rune outside ASCII and is left as it is here, which does not
  change a comparison with an ASCII name.
\<close>

fun fold_name :: "string \<Rightarrow> string" where
  "fold_name [] = []"
| "fold_name (c # cs) =
     (if c \<in> set ''abcdefghijklmnopqrstuvwxyz'' then char_of (of_char c - (32 :: nat)) # fold_name cs
      else (case cs of
              [] \<Rightarrow> [c]
            | d # ds \<Rightarrow>
                if c = CHR 0xC5 \<and> d = CHR 0xBF then CHR ''S'' # fold_name ds
                else (case ds of
                        [] \<Rightarrow> c # fold_name cs
                      | e # es \<Rightarrow>
                          if c = CHR 0xE2 \<and> d = CHR 0x84 \<and> e = CHR 0xAA then CHR ''K'' # fold_name es
                          else c # fold_name cs)))"

datatype unmarshal_error = SyntaxError | UnmarshalTypeError

text \<open>
  The field is a slice: a backing array and a length.  The backing array is kept here
  as far as it has been written.  A JSON array is stored element by element from index
  0, the slice growing as needed.  A JSON string replaces the element; \<^verbatim>\<open>null\<close> has no
  effect on the element, which keeps what the backing array holds there: the empty
  string where nothing was written, or what an earlier array of the same text has
  stored.  Any other value is a type error.
\<close>

type_synonym slice = "string list \<times> nat"

fun store_elements :: "json list \<Rightarrow> nat \<Rightarrow> string list \<Rightarrow> string list option" where
  "store_elements [] i b = Some b"
| "store_elements (e # es) i b =
     (case e of
        JString s \<Rightarrow> store_elements es (Suc i) (if i < length b then b[i := s] else b @ [s])
      | JNull \<Rightarrow> store_elements es (Suc i) (if i < length b then b else b @ [[]])
      | _ \<Rightarrow> None)"

text \<open>
  After the elements the slice has the length of the JSON array, and an empty JSON
  array gives a new empty slice.  \<^verbatim>\<open>null\<close> for the field makes it nil; a value that is
  neither an array nor \<^verbatim>\<open>null\<close> is a type error.
\<close>

fun store_messages :: "json \<Rightarrow> slice \<Rightarrow> slice option" where
  "store_messages (JArray es) (b, n) =
     (case store_elements es 0 b of
        None \<Rightarrow> None
      | Some b' \<Rightarrow> Some (if es = [] then ([], 0) else (b', length es)))"
| "store_messages JNull (b, n) = Some ([], 0)"
| "store_messages _ _ = None"

text \<open>
  The members of an object are stored in the order of the text; members with other keys
  are skipped.
\<close>

fun store_members :: "(string \<times> json) list \<Rightarrow> slice \<Rightarrow> slice option" where
  "store_members [] cur = Some cur"
| "store_members ((k, v) # ms) cur =
     (if fold_name k = ''MESSAGES'' then
        (case store_messages v cur of
           None \<Rightarrow> None
         | Some cur' \<Rightarrow> store_members ms cur')
      else store_members ms cur)"

text \<open>
  \<^verbatim>\<open>json.Unmarshal([]byte(content), &payload)\<close> for a fresh payload: the error, or
  \<^verbatim>\<open>payload.Messages\<close> when the error is nil.  A type error does not stop Go's decoder,
  but the error is returned at the end, and the caller then ignores the payload.  At the
  top, \<^verbatim>\<open>null\<close> has no effect on the struct, and a value that is neither an object nor
  \<^verbatim>\<open>null\<close> is a type error.
\<close>

definition json_Unmarshal :: "string \<Rightarrow> unmarshal_error + string list" where
  "json_Unmarshal data =
     (case json_parse data of
        None \<Rightarrow> Inl SyntaxError
      | Some JNull \<Rightarrow> Inr []
      | Some (JObject ms) \<Rightarrow>
          (case store_members ms ([], 0) of
             None \<Rightarrow> Inl UnmarshalTypeError
           | Some (b, n) \<Rightarrow> Inr (take n b))
      | Some _ \<Rightarrow> Inl UnmarshalTypeError)"

section \<open>The program\<close>

datatype error =
    EmptyResponse           \<comment> \<open>\<^verbatim>\<open>empty response from model\<close>\<close>
  | CouldNotParse           \<comment> \<open>\<^verbatim>\<open>could not parse suggestions\<close>\<close>
  | OllamaRequest           \<comment> \<open>\<^verbatim>\<open>ollama request: ...\<close>\<close>
  | OllamaError int string  \<comment> \<open>\<^verbatim>\<open>ollama error %d: %s\<close>\<close>
  | DecodeResponse          \<comment> \<open>\<^verbatim>\<open>decode response: ...\<close>\<close>
  | ReadInput               \<comment> \<open>\<^verbatim>\<open>read input: ...\<close>\<close>
  | Empty                   \<comment> \<open>\<^verbatim>\<open>empty\<close>\<close>
  | ScanError               \<comment> \<open>the error of \<^verbatim>\<open>fmt.Sscanf\<close>\<close>
  | OutOfRange              \<comment> \<open>\<^verbatim>\<open>out of range\<close>\<close>
  | NoSuggestions           \<comment> \<open>\<^verbatim>\<open>no suggestions returned\<close>\<close>
  | Panic                   \<comment> \<open>a run-time panic: index or slice bound out of range\<close>

subsection \<open>normalizeMessages\<close>

text \<open>
  \<^verbatim>\<open>seen\<close> is a \<^verbatim>\<open>map[string]bool\<close>; reading a key that is absent gives \<^verbatim>\<open>false\<close>.
\<close>

definition lookup_seen :: "(string \<rightharpoonup> bool) \<Rightarrow> string \<Rightarrow> bool" where
  "lookup_seen seen m = (case seen m of None \<Rightarrow> False | Some b \<Rightarrow> b)"

text \<open>The loop over \<^verbatim>\<open>msgs\<close>, with the variables \<^verbatim>\<open>out\<close> and \<^verbatim>\<open>seen\<close>.\<close>

fun normalize_loop :: "string list \<Rightarrow> string list \<Rightarrow> (string \<rightharpoonup> bool) \<Rightarrow> string list" where
  "normalize_loop [] out seen = out"
| "normalize_loop (m # msgs) out seen =
     (let m' = TrimSpace m
      in if m' = [] \<or> lookup_seen seen m' then normalize_loop msgs out seen
         else normalize_loop msgs (out @ [m']) (seen(m' \<mapsto> True)))"

definition normalizeMessages :: "string list \<Rightarrow> string list" where
  "normalizeMessages msgs = normalize_loop msgs [] Map.empty"

subsection \<open>parseSuggestions\<close>

text \<open>The fallback loop over \<^verbatim>\<open>lines\<close>, with the variable \<^verbatim>\<open>msgs\<close>.\<close>

fun fallback_loop :: "string list \<Rightarrow> string list \<Rightarrow> string list" where
  "fallback_loop [] msgs = msgs"
| "fallback_loop (line # lines) msgs =
     (let line' = TrimSpace (TrimLeft line ''-0123456789. '')
      in if line' \<noteq> [] then fallback_loop lines (msgs @ [line'])
         else fallback_loop lines msgs)"

text \<open>
  The JSON attempt: \<^verbatim>\<open>err == nil && len(payload.Messages) > 0\<close>, with the decoded
  messages.
\<close>

definition json_attempt :: "string \<Rightarrow> string list option" where
  "json_attempt content =
     (case json_Unmarshal content of
        Inl err \<Rightarrow> None
      | Inr messages \<Rightarrow> if 0 < length messages then Some messages else None)"

definition parseSuggestions :: "string \<Rightarrow> error + string list" where
  "parseSuggestions content0 =
     (let content = TrimSpace content0
      in if content = [] then Inl EmptyResponse
         else (case json_attempt content of
                 Some messages \<Rightarrow> Inr (normalizeMessages messages)
               | None \<Rightarrow>
                   (let lines = Split content nl;
                        msgs = fallback_loop lines []
                    in if length msgs = 0 then Inl CouldNotParse
                       else Inr (normalizeMessages msgs))))"

subsection \<open>requestSuggestions\<close>

text \<open>
  What the HTTP exchange gave: no response (\<^verbatim>\<open>client.Post\<close> failed), or a response
  with its status code, its body, and the \<^verbatim>\<open>message.content\<close> of the decoded body
  (\<open>None\<close> when \<^verbatim>\<open>dec.Decode\<close> failed).
\<close>

datatype exchange = NoResponse | Response int string "string option"

text \<open>
  The endpoint, the model, the diff and the timeout go into the request only, and the
  result depends on them through the exchange alone.  The request is built from strings
  and maps of strings, so \<^verbatim>\<open>json.Marshal\<close> does not fail.  \<^verbatim>\<open>msgs[:n]\<close> panics for a
  negative \<^verbatim>\<open>n\<close>.
\<close>

definition requestSuggestions :: "int \<Rightarrow> exchange \<Rightarrow> error + string list" where
  "requestSuggestions n x =
     (case x of
        NoResponse \<Rightarrow> Inl OllamaRequest
      | Response status body decoded \<Rightarrow>
          if status \<ge> 400 then Inl (OllamaError status (TrimSpace body))
          else (case decoded of
                  None \<Rightarrow> Inl DecodeResponse
                | Some content \<Rightarrow>
                    (case parseSuggestions content of
                       Inl err \<Rightarrow> Inl err
                     | Inr msgs \<Rightarrow>
                         if int (length msgs) > n
                         then (if n < 0 then Inl Panic else Inr (take (nat n) msgs))
                         else Inr msgs)))"

text \<open>The clamping of the \<^verbatim>\<open>-n\<close> flag in \<^verbatim>\<open>main\<close>.\<close>

definition clamp_count :: "int \<Rightarrow> int" where
  "clamp_count count0 =
     (let count = (if count0 < 1 then 1 else count0)
      in if count > 3 then 3 else count)"

text \<open>
  \<^verbatim>\<open>main\<close> from the clamping to the list it hands to \<^verbatim>\<open>chooseMessage\<close>, for a
  repository with staged changes.
\<close>

definition main_suggestions :: "int \<Rightarrow> exchange \<Rightarrow> error + string list" where
  "main_suggestions count x =
     (case requestSuggestions (clamp_count count) x of
        Inl err \<Rightarrow> Inl err
      | Inr msgs \<Rightarrow> if length msgs = 0 then Inl NoSuggestions else Inr msgs)"

subsection \<open>Standard input and output\<close>

text \<open>
  Standard input is the bytes still to come and the condition the operating system
  reports once they are used up: end of input, or a failure.  Standard output is the
  text written so far.
\<close>

datatype read_error = EOF | ReadFailure

record reader =
  pending :: string
  closing :: read_error

text \<open>
  \<^verbatim>\<open>reader.ReadString(delim)\<close>: the data up to and including the first delimiter and
  no error; without a delimiter, the data that is left and the error that ended it.
\<close>

definition ReadString :: "reader \<Rightarrow> char \<Rightarrow> (string \<times> read_error option) \<times> reader" where
  "ReadString rd delim =
     (if delim \<in> set (pending rd)
      then ((takeWhile (\<lambda>c. c \<noteq> delim) (pending rd) @ [delim], None),
            rd\<lparr>pending := tl (dropWhile (\<lambda>c. c \<noteq> delim) (pending rd))\<rparr>)
      else ((pending rd, Some (closing rd)), rd\<lparr>pending := []\<rparr>))"

definition Println :: "string \<Rightarrow> string \<Rightarrow> string" where
  "Println out s = out @ s @ [nl]"

text \<open>The verb \<^verbatim>\<open>%d\<close> of \<^verbatim>\<open>fmt.Printf\<close> on a number that is not negative.\<close>

fun decimal_of :: "nat \<Rightarrow> string" where
  "decimal_of n =
     (if n < 10 then [char_of (48 + n)]
      else decimal_of (n div 10) @ [char_of (48 + n mod 10)])"

declare decimal_of.simps [simp del]

subsection \<open>parseChoice\<close>

text \<open>
  \<^verbatim>\<open>fmt.Sscanf(s, "%d", &n)\<close> for an \<^verbatim>\<open>int\<close> of 64 bits.  Leading white space is
  skipped, and a newline in it is an error.  Then one optional sign is read, then
  decimal digits, at least one, as far as they go; what follows the digits is not
  looked at.  The token is converted by \<^verbatim>\<open>strconv.ParseInt(tok, 10, 64)\<close>, which fails
  outside the range of 64 bits.
\<close>

function skip_space :: "string \<Rightarrow> string option" where
  "skip_space s =
     (if s = [] then Some []
      else if hd s = nl then None
      else if lead_width space_runes s = 0 then Some s
      else skip_space (drop (lead_width space_runes s) s))"
  by pat_completeness auto
termination
  by (relation "measure length") auto

declare skip_space.simps [simp del]

definition decimal_value :: "string \<Rightarrow> int" where
  "decimal_value ds = foldl (\<lambda>a c. 10 * a + int (of_char c - 48)) 0 ds"

text \<open>\<^verbatim>\<open>s.accept(sign)\<close>: the sign that the text starts with, if it starts with one.\<close>

definition accept_sign :: "string \<Rightarrow> string" where
  "accept_sign t =
     (case t of
        [] \<Rightarrow> []
      | c # _ \<Rightarrow> if c = CHR ''+'' \<or> c = CHR ''-'' then [c] else [])"

text \<open>\<^verbatim>\<open>s.scanNumber(digits, false)\<close>: the digits that the text starts with.\<close>

definition scanNumber :: "string \<Rightarrow> string" where
  "scanNumber t = takeWhile is_digit t"

definition Sscanf_d :: "string \<Rightarrow> int option" where
  "Sscanf_d s =
     (case skip_space s of
        None \<Rightarrow> None
      | Some t \<Rightarrow>
          (let sign = accept_sign t;
               digits = scanNumber (drop (length sign) t);
               i = (if sign = ''-'' then - decimal_value digits else decimal_value digits)
           in if digits = [] then None
              else if i < - (2 ^ 63) \<or> 2 ^ 63 - 1 < i then None
              else Some i))"

definition parseChoice :: "string \<Rightarrow> int \<Rightarrow> error + int" where
  "parseChoice s max' =
     (if length s = 0 then Inl Empty
      else (case Sscanf_d s of
              None \<Rightarrow> Inl ScanError
            | Some n \<Rightarrow>
                if n < 1 \<or> n > max' then Inl OutOfRange
                else Inr (n - 1)))"

subsection \<open>promptEdit\<close>

text \<open>
  The loops read until they return, and need not return.  A loop takes the reader and
  the output so far, and gives its result with the reader and the output then; the
  value \<open>None\<close> is a loop that runs forever.
\<close>

type_synonym 'a outcome = "((error + 'a) \<times> reader \<times> string) option"

partial_function (option) promptEdit_loop :: "reader \<Rightarrow> string \<Rightarrow> string outcome" where
  "promptEdit_loop rd out =
     (case ReadString rd nl of
        ((line, err), rd') \<Rightarrow>
          if err = Some ReadFailure then Some (Inl ReadInput, rd', out @ ''> '')
          else if TrimSpace line = [] then promptEdit_loop rd' (out @ ''> '')
          else Some (Inr (TrimSpace line), rd', out @ ''> ''))"

declare promptEdit_loop.simps [code]

definition promptEdit :: "reader \<Rightarrow> string \<Rightarrow> string outcome" where
  "promptEdit rd out = promptEdit_loop rd (Println out ''Enter commit message:'')"

subsection \<open>chooseMessage\<close>

text \<open>The loop that prints the numbered suggestions, from index \<open>i\<close> on.\<close>

fun print_suggestions :: "nat \<Rightarrow> string list \<Rightarrow> string \<Rightarrow> string" where
  "print_suggestions i [] out = out"
| "print_suggestions i (m # msgs) out =
     print_suggestions (i + 1) msgs (out @ decimal_of (i + 1) @ ''. '' @ m @ [nl])"

text \<open>
  \<^verbatim>\<open>msgs[idx]\<close> panics when the index is out of range.
\<close>

definition index_msgs :: "string list \<Rightarrow> int \<Rightarrow> error + string" where
  "index_msgs msgs idx =
     (if 0 \<le> idx \<and> idx < int (length msgs) then Inr (msgs ! nat idx) else Inl Panic)"

partial_function (option) chooseMessage_loop :: "string list \<Rightarrow> reader \<Rightarrow> string \<Rightarrow> string outcome" where
  "chooseMessage_loop msgs rd out =
     (case ReadString rd nl of
        ((line, err), rd') \<Rightarrow>
          if err = Some ReadFailure then Some (Inl ReadInput, rd', out @ ''> '')
          else if EqualFold_e (TrimSpace line) then promptEdit rd' (out @ ''> '')
          else if TrimSpace line = [] then chooseMessage_loop msgs rd' (out @ ''> '')
          else (case parseChoice (TrimSpace line) (int (length msgs)) of
                  Inl err \<Rightarrow>
                    chooseMessage_loop msgs rd' (Println (out @ ''> '') ''Invalid choice. Try again.'')
                | Inr idx \<Rightarrow> Some (index_msgs msgs idx, rd', out @ ''> '')))"

declare chooseMessage_loop.simps [code]

definition chooseMessage :: "string list \<Rightarrow> reader \<Rightarrow> string \<Rightarrow> string outcome" where
  "chooseMessage msgs rd out =
     chooseMessage_loop msgs rd
       (Println (print_suggestions 0 msgs (Println out ''Suggestions:''))
          (''Choose 1-3 or type '' @ [CHR 0x27] @ ''e'' @ [CHR 0x27] @ '' to edit:''))"

section \<open>The specification's notions\<close>

text \<open>
  A list with every element that occurred before removed: the first occurrence of each
  element stays, in the order of the list.
\<close>

fun first_occurrences :: "'a list \<Rightarrow> 'a list" where
  "first_occurrences [] = []"
| "first_occurrences (x # xs) = x # first_occurrences (filter (\<lambda>y. y \<noteq> x) xs)"

text \<open>
  Normalization in the specification's words: trim each entry, drop empty entries, drop
  exact duplicates (first occurrence wins), preserve relative order.
\<close>

definition normalize_spec :: "string list \<Rightarrow> string list" where
  "normalize_spec l = first_occurrences (filter (\<lambda>m. m \<noteq> []) (map TrimSpace l))"

text \<open>
  The fallback in the specification's words: split on line boundaries; for each line
  strip the leading characters from the set and trim white space; keep the non-empty
  results.
\<close>

definition usable_lines :: "string \<Rightarrow> string list" where
  "usable_lines content =
     filter (\<lambda>l. l \<noteq> [])
       (map (\<lambda>line. TrimSpace (TrimLeft line ''-0123456789. '')) (Split content nl))"

text \<open>
  The text \<open>t\<close> begins with a decimal integer of value \<open>n\<close>: an optional sign and then
  digits, as many as there are; anything may follow them.
\<close>

definition leading_integer :: "string \<Rightarrow> int \<Rightarrow> bool" where
  "leading_integer t n \<longleftrightarrow>
     (\<exists>sg ds rest.
        t = sg @ ds @ rest \<and> (sg = [] \<or> sg = ''+'' \<or> sg = ''-'')
        \<and> ds \<noteq> [] \<and> list_all is_digit ds \<and> (rest = [] \<or> \<not> is_digit (hd rest))
        \<and> n = (if sg = ''-'' then - decimal_value ds else decimal_value ds))"

text \<open>The lines of an input text, each with its newline.\<close>

definition terminated :: "string list \<Rightarrow> string" where
  "terminated ls = concat (map (\<lambda>l. l @ [nl]) ls)"

text \<open>
  A JSON text of the shape \<^verbatim>\<open>{"messages":[...]}\<close> for entries that need no escape:
  printable ASCII without the quote and the backslash.
\<close>

definition plain :: "string \<Rightarrow> bool" where
  "plain s \<longleftrightarrow>
     (\<forall>c\<in>set s. c \<noteq> dquote \<and> c \<noteq> backslash
        \<and> (0x20 :: nat) \<le> of_char c \<and> of_char c < (0x80 :: nat))"

fun render_items :: "string list \<Rightarrow> string" where
  "render_items [] = []"
| "render_items [e] = dquote # e @ [dquote]"
| "render_items (e # es) = dquote # e @ [dquote] @ '','' @ render_items es"

definition render_messages :: "string list \<Rightarrow> string" where
  "render_messages entries = [CHR ''{'', dquote] @ ''messages'' @ [dquote] @ '':['' @ render_items entries @ '']}''"

text \<open>The tokens of the rendered entries.\<close>

fun item_tokens :: "string list \<Rightarrow> token list" where
  "item_tokens [] = []"
| "item_tokens [e] = [TString e]"
| "item_tokens (e # es) = TString e # TComma # item_tokens es"

section \<open>Properties of the string functions\<close>

lemma space_runes_nonempty: "[] \<notin> set space_runes"
  by (simp add: space_runes_def)

lemma space_runes_prefix_free:
  "\<forall>e\<in>set space_runes. \<forall>e'\<in>set space_runes. prefix e e' \<longrightarrow> e = e'"
  by code_simp

lemma rev_runes_prefix_free:
  "\<forall>e\<in>set (map rev space_runes). \<forall>e'\<in>set (map rev space_runes). prefix e e' \<longrightarrow> e = e'"
  by code_simp

lemma find_SomeD: "find P xs = Some x \<Longrightarrow> x \<in> set xs \<and> P x"
  by (induction xs) (auto split: if_splits)

lemma lead_width_0_iff:
  "[] \<notin> set runes \<Longrightarrow> lead_width runes s = 0 \<longleftrightarrow> (\<forall>e\<in>set runes. \<not> prefix e s)"
  by (auto simp: lead_width_def find_None_iff split: option.splits dest: find_SomeD)

lemma lead_width_rune:
  assumes "e \<in> set runes" "[] \<notin> set runes"
    and pf: "\<forall>e\<in>set runes. \<forall>e'\<in>set runes. prefix e e' \<longrightarrow> e = e'"
  shows "lead_width runes (e @ t) = length e"
proof -
  from assms(1) obtain e' where f: "find (\<lambda>x. prefix x (e @ t)) runes = Some e'"
    by (cases "find (\<lambda>x. prefix x (e @ t)) runes") (auto simp: find_None_iff)
  then have e': "e' \<in> set runes" "prefix e' (e @ t)"
    by (auto dest: find_SomeD)
  then have "prefix e e' \<or> prefix e' e"
    by (meson prefixI prefix_same_cases)
  with pf e' assms(1) have "e' = e" by auto
  with f show ?thesis by (simp add: lead_width_def)
qed

lemma trim_lead_fixed: "lead_width runes s = 0 \<Longrightarrow> trim_lead runes s = s"
  by (subst trim_lead.simps) simp

lemma trim_lead_Nil [simp]: "trim_lead runes [] = []"
  by (subst trim_lead.simps) simp

lemma trim_lead_result: "trim_lead runes s = [] \<or> lead_width runes (trim_lead runes s) = 0"
proof (induction runes s rule: trim_lead.induct)
  case (1 runes s)
  show ?case
  proof (cases "lead_width runes s = 0 \<or> s = []")
    case True
    then show ?thesis by (subst (1 2) trim_lead.simps) auto
  next
    case False
    with 1 show ?thesis by (subst (1 2) trim_lead.simps) auto
  qed
qed

lemma trim_lead_idem: "trim_lead runes (trim_lead runes s) = trim_lead runes s"
  using trim_lead_result[of runes s] by (auto simp: trim_lead_fixed)

lemma trim_lead_rune:
  assumes "e \<in> set runes" "[] \<notin> set runes"
    and "\<forall>e\<in>set runes. \<forall>e'\<in>set runes. prefix e e' \<longrightarrow> e = e'"
  shows "trim_lead runes (e @ t) = trim_lead runes t"
proof -
  have "lead_width runes (e @ t) = length e" using assms by (rule lead_width_rune)
  moreover have "e \<noteq> []" using assms by auto
  ultimately show ?thesis by (subst trim_lead.simps) simp
qed

lemma trim_lead_concat:
  assumes "set es \<subseteq> set runes" "[] \<notin> set runes"
    and "\<forall>e\<in>set runes. \<forall>e'\<in>set runes. prefix e e' \<longrightarrow> e = e'"
  shows "trim_lead runes (concat es @ t) = trim_lead runes t"
  using assms(1) by (induction es) (simp_all add: trim_lead_rune[OF _ assms(2,3)])

lemma trim_lead_decomp:
  "[] \<notin> set runes \<Longrightarrow> \<exists>es. set es \<subseteq> set runes \<and> s = concat es @ trim_lead runes s"
proof (induction runes s rule: trim_lead.induct)
  case (1 runes s)
  show ?case
  proof (cases "lead_width runes s = 0 \<or> s = []")
    case True
    then have "trim_lead runes s = s" by (subst trim_lead.simps) auto
    then show ?thesis by (intro exI[of _ "[]"]) simp
  next
    case False
    then obtain e where e: "find (\<lambda>e. prefix e s) runes = Some e"
      by (auto simp: lead_width_def split: option.splits)
    then have w: "lead_width runes s = length e" and er: "e \<in> set runes" and pe: "prefix e s"
      by (auto simp: lead_width_def dest: find_SomeD)
    from 1 False obtain es where es: "set es \<subseteq> set runes"
      "drop (lead_width runes s) s = concat es @ trim_lead runes (drop (lead_width runes s) s)"
      by blast
    have t: "trim_lead runes s = trim_lead runes (drop (lead_width runes s) s)"
      using False by (subst trim_lead.simps) auto
    from pe have "s = e @ drop (length e) s" by (auto simp: prefix_def)
    with es w t have "s = concat (e # es) @ trim_lead runes s" by simp
    with er es(1) show ?thesis by (intro exI[of _ "e # es"]) simp
  qed
qed


lemma rev_runes_nonempty: "[] \<notin> set (map rev space_runes)"
  by (simp add: space_runes_def)

lemma TrimRightSpace_prefix: "prefix (TrimRightSpace s) s"
proof -
  obtain es where "rev s = concat es @ trim_lead (map rev space_runes) (rev s)"
    using trim_lead_decomp[OF rev_runes_nonempty] by blast
  then have "rev (rev s) = rev (concat es @ trim_lead (map rev space_runes) (rev s))"
    by simp
  then have "s = TrimRightSpace s @ rev (concat es)"
    by (simp add: TrimRightSpace_def)
  then show ?thesis by (metis prefixI)
qed

lemma TrimRightSpace_idem: "TrimRightSpace (TrimRightSpace s) = TrimRightSpace s"
  by (simp add: TrimRightSpace_def trim_lead_idem)

lemma TrimLeftSpace_TrimRightSpace:
  assumes "TrimLeftSpace y = y"
  shows "TrimLeftSpace (TrimRightSpace y) = TrimRightSpace y"
proof (cases "TrimRightSpace y = []")
  case True
  then show ?thesis by (simp add: TrimLeftSpace_def)
next
  case False
  then have "y \<noteq> []" by (auto simp: TrimRightSpace_def)
  with assms trim_lead_result[of space_runes y] have "lead_width space_runes y = 0"
    by (simp add: TrimLeftSpace_def)
  then have "\<forall>e\<in>set space_runes. \<not> prefix e y"
    by (simp add: lead_width_0_iff[OF space_runes_nonempty])
  then have "\<forall>e\<in>set space_runes. \<not> prefix e (TrimRightSpace y)"
    using TrimRightSpace_prefix[of y] by (meson prefix_order.trans)
  then have "lead_width space_runes (TrimRightSpace y) = 0"
    by (simp add: lead_width_0_iff[OF space_runes_nonempty])
  then show ?thesis by (simp add: TrimLeftSpace_def trim_lead_fixed)
qed

lemma TrimSpace_idem: "TrimSpace (TrimSpace s) = TrimSpace s"
proof -
  have "TrimLeftSpace (TrimLeftSpace s) = TrimLeftSpace s"
    by (simp add: TrimLeftSpace_def trim_lead_idem)
  then have "TrimLeftSpace (TrimRightSpace (TrimLeftSpace s)) = TrimRightSpace (TrimLeftSpace s)"
    by (rule TrimLeftSpace_TrimRightSpace)
  then show ?thesis by (simp add: TrimSpace_def TrimRightSpace_idem)
qed

lemma TrimSpace_whitespace:
  assumes "set es \<subseteq> set space_runes"
  shows "TrimSpace (concat es) = []"
proof -
  have "trim_lead space_runes (concat es @ []) = trim_lead space_runes []"
    using assms space_runes_nonempty space_runes_prefix_free by (rule trim_lead_concat)
  then show ?thesis by (simp add: TrimSpace_def TrimLeftSpace_def TrimRightSpace_def)
qed

lemma TrimSpace_decomp:
  "\<exists>pre suf. set pre \<subseteq> set space_runes \<and> set suf \<subseteq> set space_runes
      \<and> s = concat pre @ TrimSpace s @ concat suf"
proof -
  obtain pre where pre: "set pre \<subseteq> set space_runes" "s = concat pre @ TrimLeftSpace s"
    using trim_lead_decomp[OF space_runes_nonempty] by (auto simp: TrimLeftSpace_def)
  obtain es where es: "set es \<subseteq> set (map rev space_runes)"
    "rev (TrimLeftSpace s) = concat es @ trim_lead (map rev space_runes) (rev (TrimLeftSpace s))"
    using trim_lead_decomp[OF rev_runes_nonempty] by blast
  from es(2) have "rev (rev (TrimLeftSpace s)) = rev (concat es @ trim_lead (map rev space_runes) (rev (TrimLeftSpace s)))"
    by simp
  then have "TrimLeftSpace s = TrimSpace s @ rev (concat es)"
    by (simp add: TrimSpace_def TrimRightSpace_def)
  moreover have "rev (concat es) = concat (map rev (rev es))"
    by (simp add: rev_concat)
  moreover have "set (map rev (rev es)) \<subseteq> set space_runes"
    using es(1) by auto
  ultimately show ?thesis using pre by (metis append.assoc)
qed

lemma TrimSpace_empty_iff:
  "TrimSpace s = [] \<longleftrightarrow> (\<exists>es. set es \<subseteq> set space_runes \<and> s = concat es)"
proof
  assume e: "TrimSpace s = []"
  obtain pre suf where "set pre \<subseteq> set space_runes" "set suf \<subseteq> set space_runes"
    "s = concat pre @ TrimSpace s @ concat suf"
    using TrimSpace_decomp by blast
  with e have "set (pre @ suf) \<subseteq> set space_runes \<and> s = concat (pre @ suf)" by simp
  then show "\<exists>es. set es \<subseteq> set space_runes \<and> s = concat es" by blast
next
  assume "\<exists>es. set es \<subseteq> set space_runes \<and> s = concat es"
  then show "TrimSpace s = []" by (auto simp: TrimSpace_whitespace)
qed

section \<open>Normalization\<close>

lemma set_first_occurrences [simp]: "set (first_occurrences xs) = set xs"
  by (induction xs rule: first_occurrences.induct) auto

lemma distinct_first_occurrences [simp]: "distinct (first_occurrences xs)"
  by (induction xs rule: first_occurrences.induct) auto

lemma first_occurrences_distinct: "distinct xs \<Longrightarrow> first_occurrences xs = xs"
proof (induction xs)
  case Nil
  then show ?case by simp
next
  case (Cons x xs)
  then have "filter (\<lambda>y. y \<noteq> x) xs = xs" by (auto intro: filter_True)
  with Cons show ?case by simp
qed

lemma first_occurrences_idem: "first_occurrences (first_occurrences xs) = first_occurrences xs"
  by (simp add: first_occurrences_distinct)

lemma normalize_loop_inv:
  assumes "\<forall>x. lookup_seen seen x \<longleftrightarrow> x \<in> set out"
  shows "normalize_loop msgs out seen =
           out @ first_occurrences (filter (\<lambda>m. m \<notin> set out) (filter (\<lambda>m. m \<noteq> []) (map TrimSpace msgs)))"
  using assms
proof (induction msgs arbitrary: out seen)
  case Nil
  then show ?case by simp
next
  case (Cons m msgs)
  let ?t = "TrimSpace m"
  let ?ys = "filter (\<lambda>m. m \<noteq> []) (map TrimSpace msgs)"
  show ?case
  proof (cases "?t = [] \<or> lookup_seen seen ?t")
    case True
    with Cons.prems have "?t = [] \<or> ?t \<in> set out" by simp
    moreover have "normalize_loop (m # msgs) out seen = normalize_loop msgs out seen"
      using True by (simp add: Let_def)
    ultimately show ?thesis using Cons.IH[OF Cons.prems] by auto
  next
    case False
    with Cons.prems have ne: "?t \<noteq> []" and nin: "?t \<notin> set out" by simp_all
    have inv: "\<forall>x. lookup_seen (seen(?t \<mapsto> True)) x \<longleftrightarrow> x \<in> set (out @ [?t])"
      using Cons.prems by (auto simp: lookup_seen_def)
    have "normalize_loop (m # msgs) out seen = normalize_loop msgs (out @ [?t]) (seen(?t \<mapsto> True))"
      using False by (simp add: Let_def)
    also have "\<dots> = (out @ [?t]) @ first_occurrences (filter (\<lambda>m. m \<notin> set (out @ [?t])) ?ys)"
      by (rule Cons.IH[OF inv])
    also have "filter (\<lambda>m. m \<notin> set (out @ [?t])) ?ys
                 = filter (\<lambda>y. y \<noteq> ?t) (filter (\<lambda>m. m \<notin> set out) ?ys)"
      by (auto intro: filter_cong)
    finally show ?thesis using ne nin by simp
  qed
qed

lemma normalizeMessages_spec: "normalizeMessages l = normalize_spec l"
  by (simp add: normalizeMessages_def normalize_spec_def normalize_loop_inv lookup_seen_def)

lemma normalize_spec_fixed:
  assumes "\<forall>m\<in>set l. m \<noteq> [] \<and> TrimSpace m = m" "distinct l"
  shows "normalize_spec l = l"
proof -
  have "map TrimSpace l = l" using assms(1) by (simp add: map_idI)
  moreover have "filter (\<lambda>m. m \<noteq> []) l = l" using assms(1) by (auto intro: filter_True)
  ultimately show ?thesis using assms(2) by (simp add: normalize_spec_def first_occurrences_distinct)
qed

lemma normalize_spec_elems:
  "m \<in> set (normalize_spec l) \<Longrightarrow> m \<noteq> [] \<and> TrimSpace m = m"
  by (auto simp: normalize_spec_def TrimSpace_idem)

lemma normalize_spec_idem: "normalize_spec (normalize_spec l) = normalize_spec l"
proof (rule normalize_spec_fixed)
  show "\<forall>m\<in>set (normalize_spec l). m \<noteq> [] \<and> TrimSpace m = m"
    using normalize_spec_elems by blast
  show "distinct (normalize_spec l)" by (simp add: normalize_spec_def)
qed

text \<open>
  C5.  Normalization is idempotent: normalizing the result of \<^verbatim>\<open>normalizeMessages\<close>
  again returns it unchanged, for every list of strings; and a list of distinct,
  non-empty entries without white space at their ends is returned unchanged.
\<close>

theorem normalizeMessages_idempotent:
  "normalizeMessages (normalizeMessages l) = normalizeMessages l
   \<and> ((\<forall>m\<in>set l. m \<noteq> [] \<and> TrimSpace m = m) \<and> distinct l \<longrightarrow> normalizeMessages l = l)"
  by (simp add: normalizeMessages_spec normalize_spec_idem normalize_spec_fixed)

text \<open>
  C5 on a list with surrounding blanks, a duplicate and a blank entry, and on its
  normal form.
\<close>

theorem normalizeMessages_idempotent_witness:
  "normalizeMessages (normalizeMessages ['' a'', ''b'', ''a '', '' '']) = normalizeMessages ['' a'', ''b'', ''a '', '' '']
    \<and> normalizeMessages ['' a'', ''b'', ''a '', '' ''] = [''a'', ''b'']
    \<and> normalizeMessages [''a'', ''b''] = [''a'', ''b'']"
proof -
  have n: "normalizeMessages ['' a'', ''b'', ''a '', '' ''] = [''a'', ''b'']" by code_simp
  have h: "(\<forall>m\<in>set [''a'', ''b'']. m \<noteq> [] \<and> TrimSpace m = m) \<and> distinct [''a'', ''b'']"
    by code_simp
  from normalizeMessages_idempotent[of "['' a'', ''b'', ''a '', '' '']", THEN conjunct1]
    normalizeMessages_idempotent[of "[''a'', ''b'']", THEN conjunct2, rule_format, OF h] n
  show ?thesis by simp
qed

lemma normalize_spec_empty_iff: "normalize_spec l = [] \<longleftrightarrow> (\<forall>m\<in>set l. TrimSpace m = [])"
proof -
  have "normalize_spec l = [] \<longleftrightarrow> set (normalize_spec l) = {}" by simp
  also have "\<dots> \<longleftrightarrow> (\<forall>m\<in>set l. TrimSpace m = [])"
    by (auto simp: normalize_spec_def)
  finally show ?thesis .
qed

section \<open>The suggestion parser\<close>

text \<open>The fallback loop computes the usable lines of the specification.\<close>

lemma fallback_loop_spec:
  "fallback_loop lines msgs =
     msgs @ filter (\<lambda>l. l \<noteq> []) (map (\<lambda>line. TrimSpace (TrimLeft line ''-0123456789. '')) lines)"
  by (induction lines arbitrary: msgs) (simp_all add: Let_def)

lemma fallback_usable_lines: "fallback_loop (Split content nl) [] = usable_lines content"
  by (simp add: fallback_loop_spec usable_lines_def)

lemma usable_lines_elems: "m \<in> set (usable_lines c) \<Longrightarrow> m \<noteq> [] \<and> TrimSpace m = m"
  by (auto simp: usable_lines_def TrimSpace_idem)

lemma normalize_usable_lines: "normalize_spec (usable_lines c) = first_occurrences (usable_lines c)"
proof -
  have "map TrimSpace (usable_lines c) = usable_lines c"
    using usable_lines_elems by (simp add: map_idI)
  moreover have "filter (\<lambda>m. m \<noteq> []) (usable_lines c) = usable_lines c"
    using usable_lines_elems by (auto intro: filter_True)
  ultimately show ?thesis by (simp add: normalize_spec_def)
qed

lemma json_Unmarshal_Nil: "json_Unmarshal [] = Inl SyntaxError"
  by code_simp

lemma parseSuggestions_cases:
  "parseSuggestions content =
     (if TrimSpace content = [] then Inl EmptyResponse
      else case json_attempt (TrimSpace content) of
             Some messages \<Rightarrow> Inr (normalize_spec messages)
           | None \<Rightarrow> if usable_lines (TrimSpace content) = [] then Inl CouldNotParse
                     else Inr (first_occurrences (usable_lines (TrimSpace content))))"
  by (simp add: parseSuggestions_def Let_def normalizeMessages_spec fallback_usable_lines
        normalize_usable_lines split: option.splits)


text \<open>The two tests of the repository.\<close>

lemma test_parse_json:
  \<open>parseSuggestions ''{"messages":["feat: add x","fix: bug y"]}'' = Inr [''feat: add x'', ''fix: bug y'']\<close>
  by code_simp

lemma test_parse_fallback:
  "parseSuggestions ''1. add x\<newline>2. fix y'' = Inr [''add x'', ''fix y'']"
  by code_simp

text \<open>A rendered text is read back as its entries, and has no white space at its ends.\<close>

lemma plain_Cons: "plain (c # s) \<longleftrightarrow> c \<noteq> dquote \<and> c \<noteq> backslash \<and> (0x20 :: nat) \<le> of_char c \<and> of_char c < (0x80 :: nat) \<and> plain s"
  by (auto simp: plain_def)

lemma scan_string_plain: "plain s \<Longrightarrow> scan_string (s @ dquote # rest) = Some s"
  by (induction s) (auto simp: plain_Cons)

lemma unquote_plain: "plain s \<Longrightarrow> unquote s = s"
  by (induction s) (auto simp: plain_Cons)

lemma lex_string:
  assumes "plain s"
  shows "lex (dquote # s @ dquote # rest) = cons_token (TString s) (lex rest)"
  using assms by (simp add: scan_string_plain unquote_plain)

lemma lex_items:
  assumes "\<forall>e\<in>set es. plain e" "lex rest = Some ts"
  shows "lex (render_items es @ rest) = Some (item_tokens es @ ts)"
  using assms(1)
proof (induction es rule: render_items.induct)
  case 1
  then show ?case using assms(2) by simp
next
  case (2 e)
  then show ?case using assms(2) by (simp del: lex.simps add: lex_string cons_token_def)
next
  case (3 e v va)
  then have i: "lex (render_items (v # va) @ rest) = Some (item_tokens (v # va) @ ts)" by simp
  from 3(2) have pe: "plain e" by simp
  have "render_items (e # v # va) @ rest = dquote # e @ dquote # ('','' @ render_items (v # va) @ rest)"
    by simp
  then have "lex (render_items (e # v # va) @ rest) =
      cons_token (TString e) (lex ('','' @ render_items (v # va) @ rest))"
    by (simp only: lex_string[OF pe])
  also have "lex ('','' @ render_items (v # va) @ rest) = cons_token TComma (lex (render_items (v # va) @ rest))"
    by simp
  finally show ?case by (simp add: i cons_token_def)
qed

lemma plain_messages: "plain ''messages''"
  by (simp add: plain_def)

lemma lex_render:
  assumes "\<forall>e\<in>set es. plain e"
  shows "lex (render_messages es) =
           Some ([TLBrace, TString ''messages'', TColon, TLBrack] @ item_tokens es @ [TRBrack, TRBrace])"
proof -
  have "lex '']}'' = Some [TRBrack, TRBrace]" by (simp add: cons_token_def)
  then have i: "lex (render_items es @ '']}'') = Some (item_tokens es @ [TRBrack, TRBrace])"
    using assms by (rule lex_items[rotated])
  have "render_messages es = CHR ''{'' # dquote # ''messages'' @ dquote # ('':['' @ render_items es @ '']}'')"
    by (simp add: render_messages_def)
  then have "lex (render_messages es) = cons_token TLBrace (lex (dquote # ''messages'' @ dquote # ('':['' @ render_items es @ '']}'')))"
    by simp
  also have "\<dots> = cons_token TLBrace (cons_token (TString ''messages'') (lex ('':['' @ render_items es @ '']}'')))"
    by (simp only: lex_string[OF plain_messages])
  also have "\<dots> = Some ([TLBrace, TString ''messages'', TColon, TLBrack] @ item_tokens es @ [TRBrack, TRBrace])"
    using i by (simp add: cons_token_def)
  finally show ?thesis .
qed

lemma run_items:
  assumes "es \<noteq> []" "m = MValue \<or> m = MValueOrEnd"
  shows "run m (FArray acc # st) (item_tokens es @ ts) =
           run MAfter (FArray (acc @ map JString es) # st) ts"
  using assms
proof (induction es arbitrary: acc m rule: item_tokens.induct)
  case 1
  then show ?case by simp
next
  case (2 e)
  then show ?case by auto
next
  case (3 e v va)
  have "run m (FArray acc # st) (item_tokens (e # v # va) @ ts) =
          run MValue (FArray (acc @ [JString e]) # st) (item_tokens (v # va) @ ts)"
    using 3(3) by auto
  also have "\<dots> = run MAfter (FArray ((acc @ [JString e]) @ map JString (v # va)) # st) ts"
    by (rule 3(1)) simp_all
  finally show ?case by simp
qed

lemma run_render:
  assumes "es \<noteq> []"
  shows "run MValue [] ([TLBrace, TString k, TColon, TLBrack] @ item_tokens es @ [TRBrack, TRBrace]) =
           Some (JObject [(k, JArray (map JString es))])"
proof -
  have "run MValue [] ([TLBrace, TString k, TColon, TLBrack] @ item_tokens es @ [TRBrack, TRBrace]) =
          run MValueOrEnd [FArray [], FObject [] (Some k)] (item_tokens es @ [TRBrack, TRBrace])"
    by (simp add: push_def)
  also have "\<dots> = run MAfter [FArray ([] @ map JString es), FObject [] (Some k)] [TRBrack, TRBrace]"
    using assms by (intro run_items) simp_all
  also have "\<dots> = Some (JObject [(k, JArray (map JString es))])"
    by simp
  finally show ?thesis .
qed

lemma store_elements_strings:
  "length b = i \<Longrightarrow> store_elements (map JString es) i b = Some (b @ es)"
  by (induction es arbitrary: i b) simp_all

lemma json_Unmarshal_render:
  assumes "es \<noteq> []" "\<forall>e\<in>set es. plain e"
  shows "json_Unmarshal (render_messages es) = Inr es"
proof -
  have p: "json_parse (render_messages es) = Some (JObject [(''messages'', JArray (map JString es))])"
    by (simp only: json_parse_def lex_render[OF assms(2)] option.case run_render[OF assms(1)])
  have f: "fold_name ''messages'' = ''MESSAGES''" by code_simp
  have "store_members [(''messages'', JArray (map JString es))] ([], 0) = Some (es, length es)"
    using assms(1) by (simp del: fold_name.simps add: f store_elements_strings)
  then show ?thesis by (simp add: json_Unmarshal_def p)
qed

lemma render_no_leading_space: "lead_width space_runes (render_messages es @ t) = 0"
proof -
  have a: "\<forall>e\<in>set space_runes. hd e \<noteq> CHR ''{''" by (simp add: space_runes_def)
  have "\<not> prefix e (render_messages es @ t)" if "e \<in> set space_runes" for e
  proof (cases e)
    case Nil
    with that space_runes_nonempty show ?thesis by simp
  next
    case (Cons c cs)
    with that a show ?thesis by (auto simp: render_messages_def)
  qed
  then show ?thesis
    using lead_width_0_iff[OF space_runes_nonempty] by blast
qed

lemma render_no_trailing_space: "lead_width (map rev space_runes) (rev (render_messages es)) = 0"
proof -
  have b: "\<forall>e\<in>set (map rev space_runes). hd e \<noteq> CHR ''}''" by (simp add: space_runes_def)
  have rv: "rev (render_messages es) = CHR ''}'' # CHR '']'' # rev (render_items es)
      @ rev ([CHR ''{'', dquote] @ ''messages'' @ [dquote] @ '':['')"
    by (simp add: render_messages_def)
  have "\<not> prefix e (rev (render_messages es))" if "e \<in> set (map rev space_runes)" for e
  proof (cases e)
    case Nil
    with that rev_runes_nonempty show ?thesis by simp
  next
    case (Cons c cs)
    with that b have "c \<noteq> CHR ''}''" by fastforce
    with Cons rv show ?thesis by simp
  qed
  then show ?thesis
    using lead_width_0_iff[OF rev_runes_nonempty] by blast
qed

lemma TrimSpace_padded_render:
  assumes "set pre \<subseteq> set space_runes" "set suf \<subseteq> set space_runes"
  shows "TrimSpace (concat pre @ render_messages es @ concat suf) = render_messages es"
proof -
  let ?R = "render_messages es"
  have "trim_lead space_runes (concat pre @ (?R @ concat suf)) = trim_lead space_runes (?R @ concat suf)"
    using assms(1) space_runes_nonempty space_runes_prefix_free by (rule trim_lead_concat)
  then have l: "TrimLeftSpace (concat pre @ ?R @ concat suf) = ?R @ concat suf"
    by (simp add: TrimLeftSpace_def trim_lead_fixed render_no_leading_space)
  have "set (map rev (rev suf)) \<subseteq> set (map rev space_runes)"
    using assms(2) by auto
  then have "trim_lead (map rev space_runes) (concat (map rev (rev suf)) @ rev ?R)
      = trim_lead (map rev space_runes) (rev ?R)"
    using rev_runes_nonempty rev_runes_prefix_free by (rule trim_lead_concat)
  moreover have "rev (?R @ concat suf) = concat (map rev (rev suf)) @ rev ?R"
    by (simp add: rev_concat)
  ultimately have "TrimRightSpace (?R @ concat suf) = ?R"
    by (simp only: TrimRightSpace_def trim_lead_fixed[OF render_no_trailing_space] rev_rev_ident)
  with l show ?thesis by (simp only: TrimSpace_def)
qed

text \<open>
  C1.  When the trimmed input is a JSON text that decodes into the payload with at least
  one entry in \<^verbatim>\<open>messages\<close>, \<^verbatim>\<open>parseSuggestions\<close> succeeds and returns those
  entries trimmed, without the empty ones, and with every duplicate (after trimming)
  collapsed to its first occurrence, in the original order.  The texts
  \<^verbatim>\<open>{"messages":["...", ...]}\<close> of one or more entries without escapes, with any white
  space around them, are among these inputs.
\<close>

theorem parseSuggestions_json:
  "(json_Unmarshal (TrimSpace content) = Inr entries \<and> entries \<noteq> [] \<longrightarrow>
       parseSuggestions content = Inr (normalize_spec entries))
   \<and> (entries \<noteq> [] \<and> (\<forall>e\<in>set entries. plain e)
        \<and> set pre \<subseteq> set space_runes \<and> set suf \<subseteq> set space_runes \<longrightarrow>
       parseSuggestions (concat pre @ render_messages entries @ concat suf) = Inr (normalize_spec entries))"
proof (intro conjI impI)
  assume a: "json_Unmarshal (TrimSpace content) = Inr entries \<and> entries \<noteq> []"
  then have "TrimSpace content \<noteq> []"
    by (auto simp: json_Unmarshal_Nil)
  moreover from a have "json_attempt (TrimSpace content) = Some entries"
    by (simp add: json_attempt_def)
  ultimately show "parseSuggestions content = Inr (normalize_spec entries)"
    by (simp add: parseSuggestions_cases)
next
  assume a: "entries \<noteq> [] \<and> (\<forall>e\<in>set entries. plain e)
        \<and> set pre \<subseteq> set space_runes \<and> set suf \<subseteq> set space_runes"
  then have t: "TrimSpace (concat pre @ render_messages entries @ concat suf) = render_messages entries"
    by (simp add: TrimSpace_padded_render)
  from a have u: "json_Unmarshal (render_messages entries) = Inr entries"
    by (simp add: json_Unmarshal_render)
  then have "render_messages entries \<noteq> []"
    by (auto simp: json_Unmarshal_Nil)
  moreover from a u have "json_attempt (render_messages entries) = Some entries"
    by (simp add: json_attempt_def)
  ultimately show "parseSuggestions (concat pre @ render_messages entries @ concat suf) = Inr (normalize_spec entries)"
    by (simp add: parseSuggestions_cases t)
qed

text \<open>
  C1 on \<^verbatim>\<open>{"messages": ["a", " a ", "", "b"]}\<close> and on a rendered text between blanks
  and newlines; both give a and b.
\<close>

theorem parseSuggestions_json_witness:
  \<open>parseSuggestions '' {"messages": ["a", " a ", "", "b"]}'' = Inr [''a'', ''b'']
    \<and> parseSuggestions (concat ['' '', [nl]] @ ''{"messages":["a"," a ","b"]}'' @ concat [[nl]]) = Inr [''a'', ''b'']\<close>
proof -
  have h: \<open>json_Unmarshal (TrimSpace '' {"messages": ["a", " a ", "", "b"]}'') = Inr [''a'', '' a '', [], ''b'']
      \<and> [''a'', '' a '', [], ''b''] \<noteq> []\<close>
    by code_simp
  have n: "normalize_spec [''a'', '' a '', [], ''b''] = [''a'', ''b'']"
    by code_simp
  have g: "[''a'', '' a '', ''b''] \<noteq> [] \<and> (\<forall>e\<in>set [''a'', '' a '', ''b'']. plain e)
        \<and> set ['' '', [nl]] \<subseteq> set space_runes \<and> set [[nl]] \<subseteq> set space_runes"
    by (simp add: plain_def space_runes_def)
  have r: \<open>render_messages [''a'', '' a '', ''b''] = ''{"messages":["a"," a ","b"]}''\<close>
    by (simp add: render_messages_def)
  have m: "normalize_spec [''a'', '' a '', ''b''] = [''a'', ''b'']"
    by code_simp
  from parseSuggestions_json[THEN conjunct1, rule_format, OF h]
    parseSuggestions_json[THEN conjunct2, rule_format, OF g]
  show ?thesis by (simp only: n m r)
qed

text \<open>
  C2, amended.  For an input whose trimmed text is not empty, \<^verbatim>\<open>parseSuggestions\<close>
  fails with the could-not-parse error exactly when the JSON attempt gives no entries
  and no line is usable; and it succeeds with zero suggestions exactly when the JSON
  attempt decoded at least one entry and every decoded entry is blank.  So a successful
  result of the line fallback is never empty, but one of the JSON attempt can be.
\<close>

theorem parseSuggestions_could_not_parse:
  assumes "TrimSpace content \<noteq> []"
  shows "(parseSuggestions content = Inl CouldNotParse \<longleftrightarrow>
            json_attempt (TrimSpace content) = None \<and> usable_lines (TrimSpace content) = [])
       \<and> (parseSuggestions content = Inr [] \<longleftrightarrow>
            (\<exists>entries. json_attempt (TrimSpace content) = Some entries
                \<and> (\<forall>e\<in>set entries. TrimSpace e = [])))"
proof -
  have "first_occurrences (usable_lines (TrimSpace content)) = [] \<longleftrightarrow> usable_lines (TrimSpace content) = []"
    by (metis set_first_occurrences set_empty)
  then show ?thesis using assms
    by (auto simp: parseSuggestions_cases normalize_spec_empty_iff split: option.splits)
qed

text \<open>
  The amended C2 on the input \<^verbatim>\<open>1.\<close>, whose only line is stripped to nothing, and on
  \<^verbatim>\<open>{"messages":[" "]}\<close>, whose only entry is blank.
\<close>

theorem parseSuggestions_could_not_parse_witness:
  \<open>TrimSpace ''1.'' \<noteq> [] \<and> parseSuggestions ''1.'' = Inl CouldNotParse
    \<and> parseSuggestions ''{"messages":[" "]}'' = Inr []\<close>
proof -
  have h: "TrimSpace ''1.'' \<noteq> []" by code_simp
  have j: "json_attempt (TrimSpace ''1.'') = None" by code_simp
  have u: "usable_lines (TrimSpace ''1.'') = []" by code_simp
  from parseSuggestions_could_not_parse[OF h] j u
  have first: "parseSuggestions ''1.'' = Inl CouldNotParse" by blast
  have h': \<open>TrimSpace ''{"messages":[" "]}'' \<noteq> []\<close> by code_simp
  have j': \<open>json_attempt (TrimSpace ''{"messages":[" "]}'') = Some ['' '']
      \<and> (\<forall>e\<in>set ['' '']. TrimSpace e = [])\<close>
    by code_simp
  from parseSuggestions_could_not_parse[OF h'] j'
  have second: \<open>parseSuggestions ''{"messages":[" "]}'' = Inr []\<close> by blast
  from h first second show ?thesis by blast
qed

text \<open>
  C2 as stated fails: on \<^verbatim>\<open>{"messages":[""]}\<close> the parser succeeds with zero
  suggestions.  (\<^verbatim>\<open>main\<close> then stops with \<^verbatim>\<open>no suggestions returned\<close>.)
\<close>

theorem parseSuggestions_zero_suggestions:
  \<open>TrimSpace ''{"messages":[""]}'' \<noteq> [] \<and> parseSuggestions ''{"messages":[""]}'' = Inr []\<close>
  by code_simp

text \<open>
  C3.  An input that consists of white-space runes only, and the empty input among
  them, fails with the empty-response error.
\<close>

theorem parseSuggestions_whitespace:
  assumes "set es \<subseteq> set space_runes"
  shows "parseSuggestions (concat es) = Inl EmptyResponse"
  using assms by (simp add: parseSuggestions_cases TrimSpace_whitespace)

text \<open>C3 on a space, a tab, a no-break space and a newline, and on the empty input.\<close>

theorem parseSuggestions_whitespace_witness:
  "set [[CHR 0x20], [CHR 0x09], [CHR 0xC2, CHR 0xA0], [nl]] \<subseteq> set space_runes
     \<and> parseSuggestions [CHR 0x20, CHR 0x09, CHR 0xC2, CHR 0xA0, nl] = Inl EmptyResponse
     \<and> parseSuggestions [] = Inl EmptyResponse"
proof -
  have h: "set [[CHR 0x20], [CHR 0x09], [CHR 0xC2, CHR 0xA0], [nl]] \<subseteq> set space_runes"
    by (simp add: space_runes_def)
  have e: "set ([] :: string list) \<subseteq> set space_runes" by simp
  from parseSuggestions_whitespace[OF h] parseSuggestions_whitespace[OF e] h
  show ?thesis by simp
qed

text \<open>The empty-response error is returned for these inputs only.\<close>

lemma parseSuggestions_empty_response_iff:
  "parseSuggestions content = Inl EmptyResponse \<longleftrightarrow>
     (\<exists>es. set es \<subseteq> set space_runes \<and> content = concat es)"
  by (auto simp: parseSuggestions_cases TrimSpace_empty_iff split: option.splits if_splits)

text \<open>
  C4, amended.  For an input that is not blank and that the JSON attempt does not
  parse, \<^verbatim>\<open>parseSuggestions\<close> splits the trimmed text at newlines, strips the leading
  characters of the set from each line, trims it, keeps the non-empty results in order,
  and then drops every result that occurred before; when no result is left it fails
  with the could-not-parse error.
\<close>

theorem parseSuggestions_fallback:
  assumes "TrimSpace content \<noteq> []" and "json_attempt (TrimSpace content) = None"
  shows "parseSuggestions content =
           (if usable_lines (TrimSpace content) = [] then Inl CouldNotParse
            else Inr (first_occurrences (usable_lines (TrimSpace content))))"
  using assms by (simp add: parseSuggestions_cases)

text \<open>The amended C4 on the numbered list of the specification.\<close>

theorem parseSuggestions_fallback_witness:
  "TrimSpace ''1. add x\<newline>2. fix y'' \<noteq> []
     \<and> json_attempt (TrimSpace ''1. add x\<newline>2. fix y'') = None
     \<and> parseSuggestions ''1. add x\<newline>2. fix y'' = Inr [''add x'', ''fix y'']"
proof -
  have h: "TrimSpace ''1. add x\<newline>2. fix y'' \<noteq> []" by code_simp
  have j: "json_attempt (TrimSpace ''1. add x\<newline>2. fix y'') = None" by code_simp
  have u: "usable_lines (TrimSpace ''1. add x\<newline>2. fix y'') = [''add x'', ''fix y'']" by code_simp
  from parseSuggestions_fallback[OF h j] u h j show ?thesis by simp
qed

text \<open>
  C4 as stated fails: of two equal lines both are usable, and one is returned.
\<close>

theorem parseSuggestions_fallback_duplicates:
  "json_attempt (TrimSpace ''a\<newline>a'') = None
     \<and> usable_lines (TrimSpace ''a\<newline>a'') = [''a'', ''a'']
     \<and> parseSuggestions ''a\<newline>a'' = Inr [''a'']"
  by code_simp

section \<open>The number of suggestions\<close>

lemma clamp_count_eq: "clamp_count c = min 3 (max 1 c)"
  by (simp add: clamp_count_def Let_def)

lemma requestSuggestions_length:
  assumes "requestSuggestions n x = Inr msgs" and "0 \<le> n"
  shows "int (length msgs) \<le> n"
  using assms
  by (auto simp: requestSuggestions_def
      split: exchange.splits option.splits sum.splits if_splits)

text \<open>
  C6.  For every value \<open>c\<close> of the flag and every exchange with the server, a list that
  \<^verbatim>\<open>requestSuggestions\<close> returns for the clamped count has at most
  \<open>min 3 (max 1 c)\<close> entries.
\<close>

theorem requestSuggestions_capped:
  assumes "requestSuggestions (clamp_count c) x = Inr msgs"
  shows "int (length msgs) \<le> min 3 (max 1 c)"
proof -
  have "0 \<le> clamp_count c" by (simp add: clamp_count_eq)
  with assms have "int (length msgs) \<le> clamp_count c" by (rule requestSuggestions_length)
  then show ?thesis by (simp only: clamp_count_eq)
qed

text \<open>C6 for the count 2 and a reply of three lines.\<close>

theorem requestSuggestions_capped_witness:
  "requestSuggestions (clamp_count 2) (Response 200 [] (Some ''a\<newline>b\<newline>c'')) = Inr [''a'', ''b'']
     \<and> int (length [''a'', ''b'']) \<le> min 3 (max 1 2)"
proof -
  have h: "requestSuggestions (clamp_count 2) (Response 200 [] (Some ''a\<newline>b\<newline>c'')) = Inr [''a'', ''b'']"
    by code_simp
  from requestSuggestions_capped[OF h] h show ?thesis by simp
qed

text \<open>\<^verbatim>\<open>main\<close> hands a list of one to three suggestions to the selector.\<close>

lemma main_suggestions_nonempty:
  assumes "main_suggestions c x = Inr msgs"
  shows "msgs \<noteq> [] \<and> length msgs \<le> 3"
proof -
  from assms have r: "requestSuggestions (clamp_count c) x = Inr msgs" and "msgs \<noteq> []"
    by (auto simp: main_suggestions_def split: sum.splits if_splits)
  moreover have "0 \<le> clamp_count c" by (simp add: clamp_count_eq)
  with r have "int (length msgs) \<le> clamp_count c" by (rule requestSuggestions_length)
  then have "length msgs \<le> 3" by (simp add: clamp_count_eq)
  ultimately show ?thesis by simp
qed

section \<open>Reading lines\<close>

lemma ReadString_closing: "closing (snd (ReadString rd c)) = closing rd"
  by (simp add: ReadString_def)

lemma ReadString_line:
  assumes "pending rd = l @ nl # rest" "nl \<notin> set l"
  shows "ReadString rd nl = ((l @ [nl], None), rd\<lparr>pending := rest\<rparr>)"
proof -
  have "takeWhile (\<lambda>c. c \<noteq> nl) (l @ nl # rest) = l"
    using assms(2) by (induction l) auto
  moreover have "dropWhile (\<lambda>c. c \<noteq> nl) (l @ nl # rest) = nl # rest"
    using assms(2) by (induction l) auto
  ultimately show ?thesis using assms(1) by (simp add: ReadString_def)
qed

lemma ReadString_last:
  assumes "nl \<notin> set (pending rd)"
  shows "ReadString rd nl = ((pending rd, Some (closing rd)), rd\<lparr>pending := []\<rparr>)"
  using assms by (simp add: ReadString_def)

lemma ReadString_failure:
  "ReadString rd nl = ((line, Some ReadFailure), rd') \<Longrightarrow> closing rd = ReadFailure \<and> pending rd' = []"
  by (auto simp: ReadString_def split: if_splits)

section \<open>parseChoice\<close>

lemma parseChoice_range:
  "parseChoice s m = Inr idx \<Longrightarrow> 0 \<le> idx \<and> idx \<le> m - 1"
  by (auto simp: parseChoice_def split: if_splits option.splits)

lemma index_msgs_parseChoice:
  "parseChoice s (int (length msgs)) = Inr idx \<Longrightarrow>
     nat idx < length msgs \<and> index_msgs msgs idx = Inr (msgs ! nat idx)"
  by (drule parseChoice_range) (auto simp: index_msgs_def)

lemma accept_sign_prefix: "t = accept_sign t @ drop (length (accept_sign t)) t"
  by (cases t) (auto simp: accept_sign_def)

lemma takeWhile_run:
  assumes "list_all P ds" "rest = [] \<or> \<not> P (hd rest)"
  shows "takeWhile P (ds @ rest) = ds"
proof -
  have "takeWhile P rest = []" using assms(2) by (cases rest) auto
  with assms(1) show ?thesis by (simp add: takeWhile_append2 list_all_iff)
qed

lemma is_digit_not_sign: "is_digit c \<Longrightarrow> c \<noteq> CHR ''+'' \<and> c \<noteq> CHR ''-''"
  by (auto simp: is_digit_def)

lemma leading_integer_scan:
  "leading_integer t n \<longleftrightarrow>
     scanNumber (drop (length (accept_sign t)) t) \<noteq> []
     \<and> n = (if accept_sign t = ''-'' then - decimal_value (scanNumber (drop (length (accept_sign t)) t))
            else decimal_value (scanNumber (drop (length (accept_sign t)) t)))"
  (is "?L \<longleftrightarrow> ?R")
proof
  assume ?L
  then obtain sg ds rest where d: "t = sg @ ds @ rest" "sg = [] \<or> sg = ''+'' \<or> sg = ''-''"
    "ds \<noteq> []" "list_all is_digit ds" "rest = [] \<or> \<not> is_digit (hd rest)"
    "n = (if sg = ''-'' then - decimal_value ds else decimal_value ds)"
    by (auto simp: leading_integer_def)
  from d(3,4) obtain c cs where c: "ds = c # cs" "is_digit c" by (cases ds) auto
  have sg: "accept_sign t = sg"
    using d(1,2) c is_digit_not_sign[OF c(2)] by (auto simp: accept_sign_def)
  then have "drop (length (accept_sign t)) t = ds @ rest" using d(1) by simp
  then have sn: "scanNumber (drop (length (accept_sign t)) t) = ds"
    using takeWhile_run[OF d(4,5)] by (simp add: scanNumber_def)
  show ?R using d(3,6) by (simp only: sn) (simp add: sg)
next
  assume r: ?R
  let ?sg = "accept_sign t"
  let ?u = "drop (length ?sg) t"
  have "t = ?sg @ takeWhile is_digit ?u @ dropWhile is_digit ?u"
    using accept_sign_prefix[of t] by simp
  moreover have "?sg = [] \<or> ?sg = ''+'' \<or> ?sg = ''-''"
    by (cases t) (auto simp: accept_sign_def)
  moreover have "list_all is_digit (takeWhile is_digit ?u)"
    by (auto simp: list_all_iff dest: set_takeWhileD)
  moreover have "dropWhile is_digit ?u = [] \<or> \<not> is_digit (hd (dropWhile is_digit ?u))"
    using hd_dropWhile[of is_digit ?u] by blast
  ultimately show ?L using r unfolding leading_integer_def scanNumber_def by blast
qed

lemma skip_space_fixed:
  assumes "lead_width space_runes t = 0"
  shows "skip_space t = Some t"
proof (cases t)
  case Nil
  then show ?thesis by (subst skip_space.simps) simp
next
  case (Cons c cs)
  have "[nl] \<in> set space_runes" by (simp add: space_runes_def)
  with assms have "\<not> prefix [nl] t"
    using lead_width_0_iff[OF space_runes_nonempty] by blast
  with Cons have "hd t \<noteq> nl" by auto
  with assms Cons show ?thesis by (subst skip_space.simps) simp
qed

lemma TrimSpace_lead_width:
  assumes "TrimSpace s \<noteq> []"
  shows "lead_width space_runes (TrimSpace s) = 0"
proof -
  have "TrimLeftSpace (TrimLeftSpace s) = TrimLeftSpace s"
    by (simp add: TrimLeftSpace_def trim_lead_idem)
  then have "TrimLeftSpace (TrimSpace s) = TrimSpace s"
    unfolding TrimSpace_def by (rule TrimLeftSpace_TrimRightSpace)
  with trim_lead_result[of space_runes "TrimSpace s"] assms show ?thesis
    by (auto simp: TrimLeftSpace_def)
qed

lemma Sscanf_d_leading_integer:
  assumes "lead_width space_runes t = 0"
  shows "Sscanf_d t = Some n \<longleftrightarrow> leading_integer t n \<and> - (2 ^ 63) \<le> n \<and> n \<le> 2 ^ 63 - 1"
  unfolding leading_integer_scan
  by (auto simp: Sscanf_d_def skip_space_fixed[OF assms] Let_def)

lemma parseChoice_leading_integer:
  assumes "lead_width space_runes t = 0" "t \<noteq> []" "m < 2 ^ 63"
  shows "parseChoice t m = Inr idx \<longleftrightarrow> (\<exists>n. leading_integer t n \<and> 1 \<le> n \<and> n \<le> m \<and> idx = n - 1)"
proof
  assume "parseChoice t m = Inr idx"
  then obtain n where "Sscanf_d t = Some n" "1 \<le> n" "n \<le> m" "idx = n - 1"
    by (auto simp: parseChoice_def split: if_splits option.splits)
  then show "\<exists>n. leading_integer t n \<and> 1 \<le> n \<and> n \<le> m \<and> idx = n - 1"
    using Sscanf_d_leading_integer[OF assms(1)] by auto
next
  assume "\<exists>n. leading_integer t n \<and> 1 \<le> n \<and> n \<le> m \<and> idx = n - 1"
  then obtain n where n: "leading_integer t n" "1 \<le> n" "n \<le> m" "idx = n - 1" by blast
  with assms(3) have "Sscanf_d t = Some n"
    using Sscanf_d_leading_integer[OF assms(1), of n] by simp
  with n assms(2) show "parseChoice t m = Inr idx"
    by (simp add: parseChoice_def)
qed

lemma parseChoice_rejects:
  assumes "lead_width space_runes t = 0" "t \<noteq> []" "m < 2 ^ 63"
    and "\<forall>n. leading_integer t n \<longrightarrow> n < 1 \<or> m < n"
  shows "\<exists>e. parseChoice t m = Inl e"
proof (cases "parseChoice t m")
  case (Inl e)
  then show ?thesis by blast
next
  case (Inr idx)
  then obtain n where "leading_integer t n" "1 \<le> n" "n \<le> m"
    using parseChoice_leading_integer[OF assms(1-3)] by blast
  with assms(4) show ?thesis by force
qed


section \<open>The interactive selector\<close>

lemma promptEdit_loop_step:
  assumes "ReadString rd nl = ((line, err), rd')"
  shows "promptEdit_loop rd out =
           (if err = Some ReadFailure then Some (Inl ReadInput, rd', out @ ''> '')
            else if TrimSpace line = [] then promptEdit_loop rd' (out @ ''> '')
            else Some (Inr (TrimSpace line), rd', out @ ''> ''))"
  by (subst promptEdit_loop.simps) (simp add: assms)

lemma chooseMessage_loop_step:
  assumes "ReadString rd nl = ((line, err), rd')"
  shows "chooseMessage_loop msgs rd out =
           (if err = Some ReadFailure then Some (Inl ReadInput, rd', out @ ''> '')
            else if EqualFold_e (TrimSpace line) then promptEdit rd' (out @ ''> '')
            else if TrimSpace line = [] then chooseMessage_loop msgs rd' (out @ ''> '')
            else (case parseChoice (TrimSpace line) (int (length msgs)) of
                    Inl err \<Rightarrow>
                      chooseMessage_loop msgs rd' (Println (out @ ''> '') ''Invalid choice. Try again.'')
                  | Inr idx \<Rightarrow> Some (index_msgs msgs idx, rd', out @ ''> '')))"
  by (subst chooseMessage_loop.simps) (simp add: assms)

text \<open>
  What the selector does with a line as the code is written.  Let a line be read
  without a read failure, and let its trimmed text be neither empty nor the letter e,
  for a suggestion list whose length is a Go \<^verbatim>\<open>int\<close>.  When the trimmed text begins
  with a decimal integer \<open>n\<close> with \<open>1 \<le> n \<le> count\<close>, the selector returns the
  suggestion at the 1-indexed position \<open>n\<close>, and \<^verbatim>\<open>fmt.Sscanf\<close> does not look at
  what follows the digits.  Otherwise it prints the invalid-choice message and goes on
  with the next line.
\<close>

lemma chooseMessage_choice:
  assumes "ReadString rd nl = ((line, err), rd')" and "err \<noteq> Some ReadFailure"
    and "TrimSpace line \<noteq> []" and "\<not> EqualFold_e (TrimSpace line)"
    and "int (length msgs) < 2 ^ 63"
  shows "(\<forall>n. leading_integer (TrimSpace line) n \<and> 1 \<le> n \<and> n \<le> int (length msgs) \<longrightarrow>
            chooseMessage_loop msgs rd out = Some (Inr (msgs ! nat (n - 1)), rd', out @ ''> ''))
       \<and> ((\<forall>n. leading_integer (TrimSpace line) n \<longrightarrow> n < 1 \<or> int (length msgs) < n) \<longrightarrow>
            chooseMessage_loop msgs rd out =
              chooseMessage_loop msgs rd' (Println (out @ ''> '') ''Invalid choice. Try again.''))"
proof (intro conjI allI impI)
  note w = TrimSpace_lead_width[OF assms(3)]
  fix n
  assume "leading_integer (TrimSpace line) n \<and> 1 \<le> n \<and> n \<le> int (length msgs)"
  then have p: "parseChoice (TrimSpace line) (int (length msgs)) = Inr (n - 1)"
    using parseChoice_leading_integer[OF w assms(3,5)] by blast
  then have "index_msgs msgs (n - 1) = Inr (msgs ! nat (n - 1))"
    using index_msgs_parseChoice by blast
  with p show "chooseMessage_loop msgs rd out = Some (Inr (msgs ! nat (n - 1)), rd', out @ ''> '')"
    using assms(2-4) by (simp add: chooseMessage_loop_step[OF assms(1)])
next
  note w = TrimSpace_lead_width[OF assms(3)]
  assume "\<forall>n. leading_integer (TrimSpace line) n \<longrightarrow> n < 1 \<or> int (length msgs) < n"
  then obtain e where "parseChoice (TrimSpace line) (int (length msgs)) = Inl e"
    using parseChoice_rejects[OF w assms(3,5)] by blast
  then show "chooseMessage_loop msgs rd out =
      chooseMessage_loop msgs rd' (Println (out @ ''> '') ''Invalid choice. Try again.'')"
    using assms(2-4) by (simp add: chooseMessage_loop_step[OF assms(1)])
qed

text \<open>The text \<^verbatim>\<open>2abc\<close> begins with the integer 2, and the text \<^verbatim>\<open>5\<close> is 5.\<close>

lemma leading_integer_2abc: "leading_integer ''2abc'' n \<longleftrightarrow> n = 2"
  unfolding leading_integer_scan by code_simp

lemma leading_integer_5: "leading_integer ''5'' n \<longleftrightarrow> n = 5"
  unfolding leading_integer_scan by code_simp

text \<open>
  On three suggestions the line \<^verbatim>\<open>2abc\<close> selects the second, and the line \<^verbatim>\<open>5\<close> is
  answered with the message, after which the next line is read.
\<close>

lemma chooseMessage_choice_witness:
  "chooseMessage_loop [''a'', ''b'', ''c''] \<lparr>pending = ''2abc\<newline>'', closing = EOF\<rparr> []
     = Some (Inr ''b'', \<lparr>pending = [], closing = EOF\<rparr>, ''> '')
   \<and> chooseMessage_loop [''a'', ''b'', ''c''] \<lparr>pending = ''5\<newline>1\<newline>'', closing = EOF\<rparr> []
     = chooseMessage_loop [''a'', ''b'', ''c''] \<lparr>pending = ''1\<newline>'', closing = EOF\<rparr>
         ''> Invalid choice. Try again.\<newline>''"
proof -
  let ?rd = "\<lparr>pending = ''2abc\<newline>'', closing = EOF\<rparr>"
  have r: "ReadString ?rd nl = ((''2abc\<newline>'', None), \<lparr>pending = [], closing = EOF\<rparr>)"
    by code_simp
  have t: "TrimSpace ''2abc\<newline>'' = ''2abc''" by code_simp
  have h2: "(None :: read_error option) \<noteq> Some ReadFailure" by simp
  have h3: "TrimSpace ''2abc\<newline>'' \<noteq> []" by (simp add: t)
  have h4: "\<not> EqualFold_e (TrimSpace ''2abc\<newline>'')" by (simp add: t EqualFold_e_def)
  have h5: "int (length [''a'', ''b'', ''c'']) < 2 ^ 63" by simp
  have l: "leading_integer (TrimSpace ''2abc\<newline>'') 2" by (simp add: t leading_integer_2abc)
  from chooseMessage_choice[OF r h2 h3 h4 h5, of "[]"] l
  have first: "chooseMessage_loop [''a'', ''b'', ''c''] ?rd []
     = Some (Inr ''b'', \<lparr>pending = [], closing = EOF\<rparr>, ''> '')"
    by force
  let ?rd' = "\<lparr>pending = ''5\<newline>1\<newline>'', closing = EOF\<rparr>"
  have r': "ReadString ?rd' nl = ((''5\<newline>'', None), \<lparr>pending = ''1\<newline>'', closing = EOF\<rparr>)"
    by code_simp
  have t': "TrimSpace ''5\<newline>'' = ''5''" by code_simp
  have g3: "TrimSpace ''5\<newline>'' \<noteq> []" by (simp add: t')
  have g4: "\<not> EqualFold_e (TrimSpace ''5\<newline>'')" by (simp add: t' EqualFold_e_def)
  have g: "\<forall>n. leading_integer (TrimSpace ''5\<newline>'') n \<longrightarrow> n < 1 \<or> int (length [''a'', ''b'', ''c'']) < n"
    by (simp add: t' leading_integer_5)
  from chooseMessage_choice[OF r' h2 g3 g4 h5, of "[]", THEN conjunct2] g
  have second: "chooseMessage_loop [''a'', ''b'', ''c''] ?rd' []
     = chooseMessage_loop [''a'', ''b'', ''c''] \<lparr>pending = ''1\<newline>'', closing = EOF\<rparr>
         ''> Invalid choice. Try again.\<newline>''"
    by (simp add: Println_def)
  from first second show ?thesis by (rule conjI)
qed

text \<open>
  C7.  A line whose trimmed text is a number from 1 to the count selects that
  suggestion, and every other line that is neither empty nor the letter e is to be
  answered with the invalid-choice message.  \<^verbatim>\<open>parseChoice\<close> attempts this: the empty
  text, a scan error and a number out of range are all refused.  But it reads the
  number with \<^verbatim>\<open>fmt.Sscanf(s, "%d", &n)\<close>, which stops after the digits, and the code
  fails the claim: the trimmed line \<^verbatim>\<open>2abc\<close> is not a numeric token and not the
  letter e, and the selector returns the second suggestion.
\<close>

theorem chooseMessage_trailing_text:
  "TrimSpace ''2abc\<newline>'' = ''2abc'' \<and> \<not> list_all is_digit ''2abc'' \<and> \<not> EqualFold_e ''2abc''
     \<and> chooseMessage_loop [''a'', ''b'', ''c''] \<lparr>pending = ''2abc\<newline>'', closing = EOF\<rparr> []
          = Some (Inr ''b'', \<lparr>pending = [], closing = EOF\<rparr>, ''> '')"
  by code_simp


lemma terminated_Cons: "terminated (b # bs) @ p = b @ nl # (terminated bs @ p)"
  by (simp add: terminated_def)

lemma promptEdit_loop_blanks:
  assumes "\<forall>b\<in>set blanks. nl \<notin> set b \<and> TrimSpace (b @ [nl]) = []"
  shows "promptEdit_loop (rd\<lparr>pending := terminated blanks @ p\<rparr>) out =
           promptEdit_loop (rd\<lparr>pending := p\<rparr>) (out @ concat (replicate (length blanks) ''> ''))"
  using assms
proof (induction blanks arbitrary: out)
  case Nil
  then show ?case by (simp add: terminated_def)
next
  case (Cons b bs)
  let ?rd = "rd\<lparr>pending := terminated (b # bs) @ p\<rparr>"
  have "pending ?rd = b @ nl # (terminated bs @ p)" by (simp add: terminated_Cons)
  moreover have "nl \<notin> set b" using Cons.prems by simp
  ultimately have "ReadString ?rd nl = ((b @ [nl], None), ?rd\<lparr>pending := terminated bs @ p\<rparr>)"
    by (rule ReadString_line)
  then have r: "ReadString ?rd nl = ((b @ [nl], None), rd\<lparr>pending := terminated bs @ p\<rparr>)"
    by simp
  have "promptEdit_loop ?rd out = promptEdit_loop (rd\<lparr>pending := terminated bs @ p\<rparr>) (out @ ''> '')"
    using Cons.prems by (simp add: promptEdit_loop_step[OF r])
  also have "\<dots> = promptEdit_loop (rd\<lparr>pending := p\<rparr>) ((out @ ''> '') @ concat (replicate (length bs) ''> ''))"
    using Cons.prems by (intro Cons.IH) simp
  finally show ?case by simp
qed

lemma promptEdit_loop_line:
  assumes "\<forall>b\<in>set blanks. nl \<notin> set b \<and> TrimSpace (b @ [nl]) = []"
    and "nl \<notin> set l" and "TrimSpace (l @ [nl]) \<noteq> []"
  shows "promptEdit_loop (rd\<lparr>pending := terminated blanks @ l @ [nl] @ rest\<rparr>) out =
           Some (Inr (TrimSpace (l @ [nl])), rd\<lparr>pending := rest\<rparr>,
                 out @ concat (replicate (Suc (length blanks)) ''> ''))"
proof -
  let ?rd = "rd\<lparr>pending := l @ nl # rest\<rparr>"
  have "pending ?rd = l @ nl # rest" by simp
  then have "ReadString ?rd nl = ((l @ [nl], None), ?rd\<lparr>pending := rest\<rparr>)"
    using assms(2) by (rule ReadString_line)
  then have r: "ReadString ?rd nl = ((l @ [nl], None), rd\<lparr>pending := rest\<rparr>)"
    by simp
  have "replicate (Suc (length blanks)) ''> '' = replicate (length blanks) ''> '' @ [''> '']"
    by (simp add: replicate_append_same)
  then have c: "concat (replicate (Suc (length blanks)) ''> '') = concat (replicate (length blanks) ''> '') @ ''> ''"
    by (simp del: replicate_Suc)
  show ?thesis
    unfolding promptEdit_loop_blanks[OF assms(1)] c
    using assms(3) by (simp add: promptEdit_loop_step[OF r])
qed

text \<open>
  A line without white space at either end is returned as it was entered, without its
  newline.
\<close>

lemma space_runes_last_nl: "\<forall>e\<in>set space_runes. last e = nl \<longrightarrow> e = [nl]"
  by (simp add: space_runes_def)

lemma TrimLeftSpace_line:
  assumes "l \<noteq> []" "lead_width space_runes l = 0"
  shows "TrimLeftSpace (l @ [nl]) = l @ [nl]"
proof -
  have "\<not> prefix e (l @ [nl])" if e: "e \<in> set space_runes" for e
  proof
    assume p: "prefix e (l @ [nl])"
    from assms(2) e have "\<not> prefix e l"
      using lead_width_0_iff[OF space_runes_nonempty] by blast
    with p have el: "e = l @ [nl]" by (simp add: prefix_snoc)
    then have "last e = nl" by simp
    with space_runes_last_nl e have "e = [nl]" by blast
    with el assms(1) show False by simp
  qed
  then have "lead_width space_runes (l @ [nl]) = 0"
    using lead_width_0_iff[OF space_runes_nonempty] by blast
  then show ?thesis
    by (simp add: TrimLeftSpace_def trim_lead_fixed)
qed

lemma TrimRightSpace_line: "TrimRightSpace (l @ [nl]) = TrimRightSpace l"
proof -
  have "[nl] \<in> set (map rev space_runes)" by (simp add: space_runes_def)
  then have "trim_lead (map rev space_runes) ([nl] @ rev l) = trim_lead (map rev space_runes) (rev l)"
    using rev_runes_nonempty rev_runes_prefix_free by (rule trim_lead_rune)
  then show ?thesis by (simp add: TrimRightSpace_def)
qed

lemma TrimSpace_line_verbatim:
  assumes "l \<noteq> []" "lead_width space_runes l = 0" "lead_width (map rev space_runes) (rev l) = 0"
  shows "TrimSpace (l @ [nl]) = l"
proof -
  have "TrimSpace (l @ [nl]) = TrimRightSpace l"
    by (simp only: TrimSpace_def TrimLeftSpace_line[OF assms(1,2)] TrimRightSpace_line)
  also have "\<dots> = l"
    using assms(3) by (simp only: TrimRightSpace_def trim_lead_fixed rev_rev_ident)
  finally show ?thesis .
qed

lemma lead_width_rev_suffix:
  "lead_width (map rev space_runes) (rev l) = 0 \<longleftrightarrow> (\<forall>e\<in>set space_runes. \<not> suffix e l)"
  by (simp add: lead_width_0_iff[OF rev_runes_nonempty] suffix_to_prefix)

lemma TrimSpace_line_plain:
  assumes "l \<noteq> []" "\<forall>e\<in>set space_runes. \<not> prefix e l \<and> \<not> suffix e l"
  shows "TrimSpace (l @ [nl]) = l"
proof (rule TrimSpace_line_verbatim[OF assms(1)])
  show "lead_width space_runes l = 0"
    using assms(2) by (simp add: lead_width_0_iff[OF space_runes_nonempty])
  show "lead_width (map rev space_runes) (rev l) = 0"
    using assms(2) by (simp add: lead_width_rev_suffix)
qed

text \<open>
  C8, amended.  When the trimmed selector line is the letter e in either case, the
  selector goes into edit mode.  Edit mode passes over the lines that are empty after
  trimming and returns the first other line trimmed: the line as it was entered,
  without the white space at its two ends, its newline included.  A line that neither
  begins nor ends with white space is returned as it was entered.
\<close>

theorem chooseMessage_edit:
  assumes "nl \<notin> set eline" and "EqualFold_e (TrimSpace (eline @ [nl]))"
    and "\<forall>b\<in>set blanks. nl \<notin> set b \<and> TrimSpace (b @ [nl]) = []"
    and "nl \<notin> set l" and "TrimSpace (l @ [nl]) \<noteq> []"
    and "pending rd = eline @ [nl] @ terminated blanks @ l @ [nl] @ rest"
  shows "chooseMessage_loop msgs rd out =
           Some (Inr (TrimSpace (l @ [nl])), rd\<lparr>pending := rest\<rparr>,
                 Println (out @ ''> '') ''Enter commit message:''
                   @ concat (replicate (Suc (length blanks)) ''> ''))
         \<and> (\<exists>pre suf. set pre \<subseteq> set space_runes \<and> set suf \<subseteq> set space_runes
               \<and> l @ [nl] = concat pre @ TrimSpace (l @ [nl]) @ concat suf)
         \<and> ((\<forall>e\<in>set space_runes. \<not> prefix e l \<and> \<not> suffix e l) \<longrightarrow> TrimSpace (l @ [nl]) = l)"
proof (intro conjI impI)
  from assms(6) have "pending rd = eline @ nl # (terminated blanks @ l @ [nl] @ rest)"
    by simp
  then have r: "ReadString rd nl =
      ((eline @ [nl], None), rd\<lparr>pending := terminated blanks @ l @ [nl] @ rest\<rparr>)"
    using assms(1) by (rule ReadString_line)
  have "chooseMessage_loop msgs rd out =
          promptEdit (rd\<lparr>pending := terminated blanks @ l @ [nl] @ rest\<rparr>) (out @ ''> '')"
    using assms(2) by (simp add: chooseMessage_loop_step[OF r])
  then show "chooseMessage_loop msgs rd out =
           Some (Inr (TrimSpace (l @ [nl])), rd\<lparr>pending := rest\<rparr>,
                 Println (out @ ''> '') ''Enter commit message:''
                   @ concat (replicate (Suc (length blanks)) ''> ''))"
    by (simp only: promptEdit_def promptEdit_loop_line[OF assms(3-5)])
next
  show "\<exists>pre suf. set pre \<subseteq> set space_runes \<and> set suf \<subseteq> set space_runes
          \<and> l @ [nl] = concat pre @ TrimSpace (l @ [nl]) @ concat suf"
    by (rule TrimSpace_decomp)
next
  assume "\<forall>e\<in>set space_runes. \<not> prefix e l \<and> \<not> suffix e l"
  moreover have "l \<noteq> []"
  proof
    assume "l = []"
    then have "TrimSpace (l @ [nl]) = TrimSpace (concat [[nl]])" by simp
    also have "\<dots> = []" by (rule TrimSpace_whitespace) (simp add: space_runes_def)
    finally show False using assms(5) by simp
  qed
  ultimately show "TrimSpace (l @ [nl]) = l" by (rule TrimSpace_line_plain[rotated])
qed

text \<open>
  The amended C8 on the lines \<^verbatim>\<open> E\<close>, a blank, an empty line and the message with a
  space at its end; and on the lines \<^verbatim>\<open>e\<close> and a message without white space at
  its ends.
\<close>

theorem chooseMessage_edit_witness:
  "chooseMessage_loop [''a'', ''b''] \<lparr>pending = '' E\<newline> \<newline>\<newline>fix the parser \<newline>2\<newline>'', closing = EOF\<rparr> []
     = Some (Inr ''fix the parser'', \<lparr>pending = ''2\<newline>'', closing = EOF\<rparr>,
             ''> Enter commit message:\<newline>> > > '')
   \<and> chooseMessage_loop [''a'', ''b''] \<lparr>pending = ''e\<newline>fix it\<newline>'', closing = EOF\<rparr> []
     = Some (Inr ''fix it'', \<lparr>pending = [], closing = EOF\<rparr>, ''> Enter commit message:\<newline>> '')"
proof -
  let ?rd = "\<lparr>pending = '' E\<newline> \<newline>\<newline>fix the parser \<newline>2\<newline>'', closing = EOF\<rparr>"
  have h1: "nl \<notin> set '' E''" by simp
  have h2: "EqualFold_e (TrimSpace ('' E'' @ [nl]))" by code_simp
  have h3: "\<forall>b\<in>set ['' '', []]. nl \<notin> set b \<and> TrimSpace (b @ [nl]) = []" by code_simp
  have h4: "nl \<notin> set ''fix the parser ''" by simp
  have t: "TrimSpace (''fix the parser '' @ [nl]) = ''fix the parser''" by code_simp
  have h5: "TrimSpace (''fix the parser '' @ [nl]) \<noteq> []" by code_simp
  have h6: "pending ?rd = '' E'' @ [nl] @ terminated ['' '', []] @ ''fix the parser '' @ [nl] @ ''2\<newline>''"
    by (simp add: terminated_def)
  from chooseMessage_edit[OF h1 h2 h3 h4 h5 h6, THEN conjunct1, of "[''a'', ''b'']" "[]"]
  have first: "chooseMessage_loop [''a'', ''b''] ?rd []
     = Some (Inr ''fix the parser'', \<lparr>pending = ''2\<newline>'', closing = EOF\<rparr>,
             ''> Enter commit message:\<newline>> > > '')"
    by (simp only: t) (simp add: Println_def)
  let ?rd' = "\<lparr>pending = ''e\<newline>fix it\<newline>'', closing = EOF\<rparr>"
  have g1: "nl \<notin> set ''e''" by simp
  have g2: "EqualFold_e (TrimSpace (''e'' @ [nl]))" by code_simp
  have g3: "\<forall>b\<in>set ([] :: string list). nl \<notin> set b \<and> TrimSpace (b @ [nl]) = []" by simp
  have g4: "nl \<notin> set ''fix it''" by simp
  have g5: "TrimSpace (''fix it'' @ [nl]) \<noteq> []" by code_simp
  have g6: "pending ?rd' = ''e'' @ [nl] @ terminated [] @ ''fix it'' @ [nl] @ []"
    by (simp add: terminated_def)
  have g7: "\<forall>e\<in>set space_runes. \<not> prefix e ''fix it'' \<and> \<not> suffix e ''fix it''"
    by (simp add: space_runes_def suffix_to_prefix)
  note c = chooseMessage_edit[OF g1 g2 g3 g4 g5 g6, of "[''a'', ''b'']" "[]"]
  from c[THEN conjunct2, THEN conjunct2] g7
  have v: "TrimSpace (''fix it'' @ [nl]) = ''fix it''" by (rule mp)
  from c[THEN conjunct1]
  have second: "chooseMessage_loop [''a'', ''b''] ?rd' []
     = Some (Inr ''fix it'', \<lparr>pending = [], closing = EOF\<rparr>, ''> Enter commit message:\<newline>> '')"
    by (simp only: v) (simp add: Println_def)
  from first second show ?thesis by (rule conjI)
qed

text \<open>
  C8 as stated fails: the line entered in edit mode is not returned verbatim, its
  surrounding blanks are removed.
\<close>

theorem promptEdit_trims:
  "promptEdit \<lparr>pending = ''  fix  \<newline>'', closing = EOF\<rparr> []
     = Some (Inr ''fix'', \<lparr>pending = [], closing = EOF\<rparr>, ''Enter commit message:\<newline>> '')
   \<and> ''fix'' \<noteq> ''  fix  ''"
  by code_simp

section \<open>Read errors and the end of the input\<close>

text \<open>
  A loop that returns an error has met a read failure: by induction over the
  iterations of the loop.
\<close>

lemma promptEdit_loop_error_aux:
  assumes "promptEdit_loop rd out = Some y"
  shows "\<forall>e rd' out'. y = (Inl e, rd', out') \<longrightarrow>
           e = ReadInput \<and> closing rd = ReadFailure \<and> pending rd' = []"
proof (rule promptEdit_loop.raw_induct
    [where P = "\<lambda>rd out y. \<forall>e rd' out'. y = (Inl e, rd', out') \<longrightarrow>
           e = ReadInput \<and> closing rd = ReadFailure \<and> pending rd' = []", OF _ assms])
  fix f rd out y
  assume IH: "\<And>rd out y. f rd out = Some y \<Longrightarrow>
      \<forall>e rd' out'. y = (Inl e, rd', out') \<longrightarrow>
           e = ReadInput \<and> closing rd = ReadFailure \<and> pending rd' = []"
    and eq: "(case ReadString rd nl of
        ((line, err), rd') \<Rightarrow>
          if err = Some ReadFailure then Some (Inl ReadInput, rd', out @ ''> '')
          else if TrimSpace line = [] then f rd' (out @ ''> '')
          else Some (Inr (TrimSpace line), rd', out @ ''> '')) = Some y"
  obtain line err rd1 where r: "ReadString rd nl = ((line, err), rd1)"
    by (cases "ReadString rd nl") auto
  have c: "closing rd1 = closing rd"
    using ReadString_closing[of rd nl] r by simp
  show "\<forall>e rd' out'. y = (Inl e, rd', out') \<longrightarrow>
           e = ReadInput \<and> closing rd = ReadFailure \<and> pending rd' = []"
  proof (cases "err = Some ReadFailure")
    case True
    with r ReadString_failure[of rd line rd1] eq show ?thesis by auto
  next
    case False
    show ?thesis
    proof (cases "TrimSpace line = []")
      case True
      with False r eq have "f rd1 (out @ ''> '') = Some y" by simp
      from IH[OF this] show ?thesis by (simp only: c)
    next
      case nonempty: False
      with False r eq show ?thesis by auto
    qed
  qed
qed


lemma promptEdit_error:
  assumes "promptEdit rd out = Some (Inl e, rd', out')"
  shows "e = ReadInput \<and> closing rd = ReadFailure \<and> pending rd' = []"
  using promptEdit_loop_error_aux[OF assms[unfolded promptEdit_def]] by blast

lemma chooseMessage_loop_error_aux:
  assumes "chooseMessage_loop msgs rd out = Some y"
  shows "\<forall>e rd' out'. y = (Inl e, rd', out') \<longrightarrow>
           e = ReadInput \<and> closing rd = ReadFailure \<and> pending rd' = []"
proof (rule chooseMessage_loop.raw_induct
    [where P = "\<lambda>msgs rd out y. \<forall>e rd' out'. y = (Inl e, rd', out') \<longrightarrow>
           e = ReadInput \<and> closing rd = ReadFailure \<and> pending rd' = []", OF _ assms])
  fix f msgs rd out y
  assume IH: "\<And>msgs rd out y. f msgs rd out = Some y \<Longrightarrow>
      \<forall>e rd' out'. y = (Inl e, rd', out') \<longrightarrow>
           e = ReadInput \<and> closing rd = ReadFailure \<and> pending rd' = []"
    and eq: "(case ReadString rd nl of
        ((line, err), rd') \<Rightarrow>
          if err = Some ReadFailure then Some (Inl ReadInput, rd', out @ ''> '')
          else if EqualFold_e (TrimSpace line) then promptEdit rd' (out @ ''> '')
          else if TrimSpace line = [] then f msgs rd' (out @ ''> '')
          else (case parseChoice (TrimSpace line) (int (length msgs)) of
                  Inl err \<Rightarrow> f msgs rd' (Println (out @ ''> '') ''Invalid choice. Try again.'')
                | Inr idx \<Rightarrow> Some (index_msgs msgs idx, rd', out @ ''> ''))) = Some y"
  obtain line err rd1 where r: "ReadString rd nl = ((line, err), rd1)"
    by (cases "ReadString rd nl") auto
  have c: "closing rd1 = closing rd"
    using ReadString_closing[of rd nl] r by simp
  show "\<forall>e rd' out'. y = (Inl e, rd', out') \<longrightarrow>
           e = ReadInput \<and> closing rd = ReadFailure \<and> pending rd' = []"
  proof (cases "err = Some ReadFailure")
    case True
    with r ReadString_failure[of rd line rd1] eq show ?thesis by auto
  next
    case nofail: False
    show ?thesis
    proof (cases "EqualFold_e (TrimSpace line)")
      case True
      with nofail r eq have "promptEdit rd1 (out @ ''> '') = Some y" by simp
      then have "\<forall>e rd' out'. y = (Inl e, rd', out') \<longrightarrow>
           e = ReadInput \<and> closing rd1 = ReadFailure \<and> pending rd' = []"
        using promptEdit_error[of rd1 "out @ ''> ''"] by blast
      then show ?thesis by (simp only: c)
    next
      case noedit: False
      show ?thesis
      proof (cases "TrimSpace line = []")
        case True
        with nofail noedit r eq have "f msgs rd1 (out @ ''> '') = Some y" by simp
        from IH[OF this] show ?thesis by (simp only: c)
      next
        case nonempty: False
        show ?thesis
        proof (cases "parseChoice (TrimSpace line) (int (length msgs))")
          case (Inl e)
          with nofail noedit nonempty r eq
          have "f msgs rd1 (Println (out @ ''> '') ''Invalid choice. Try again.'') = Some y"
            by simp
          from IH[OF this] show ?thesis by (simp only: c)
        next
          case (Inr idx)
          then have "index_msgs msgs idx = Inr (msgs ! nat idx)"
            using index_msgs_parseChoice by blast
          with Inr nofail noedit nonempty r eq have "y = (Inr (msgs ! nat idx), rd1, out @ ''> '')"
            by simp
          then show ?thesis by simp
        qed
      qed
    qed
  qed
qed

lemma chooseMessage_error:
  assumes "chooseMessage msgs rd out = Some (Inl e, rd', out')"
  shows "e = ReadInput \<and> closing rd = ReadFailure \<and> pending rd' = []"
  using chooseMessage_loop_error_aux[OF assms[unfolded chooseMessage_def]] by blast

text \<open>
  C9.  When \<^verbatim>\<open>chooseMessage\<close> or edit mode returns an error, it is the read error,
  standard input has failed with something other than the end of the input, and the
  failure came before the line was complete, all the input before it being used up.  On
  an input that ends with the end of the input neither returns an error.
\<close>

theorem chooseMessage_read_error:
  "(chooseMessage msgs rd out = Some (Inl e, rd', out') \<longrightarrow>
       e = ReadInput \<and> closing rd = ReadFailure \<and> pending rd' = [])
   \<and> (promptEdit rd out = Some (Inl e, rd', out') \<longrightarrow>
       e = ReadInput \<and> closing rd = ReadFailure \<and> pending rd' = [])
   \<and> (closing rd = EOF \<longrightarrow>
       chooseMessage msgs rd out \<noteq> Some (Inl e, rd', out')
       \<and> promptEdit rd out \<noteq> Some (Inl e, rd', out'))"
proof (intro conjI impI)
  assume "chooseMessage msgs rd out = Some (Inl e, rd', out')"
  then show "e = ReadInput" "closing rd = ReadFailure" "pending rd' = []"
    using chooseMessage_error by blast+
next
  assume "promptEdit rd out = Some (Inl e, rd', out')"
  then show "e = ReadInput" "closing rd = ReadFailure" "pending rd' = []"
    using promptEdit_error by blast+
next
  assume "closing rd = EOF"
  then show "chooseMessage msgs rd out \<noteq> Some (Inl e, rd', out')"
    using chooseMessage_error[of msgs rd out e rd' out'] by auto
next
  assume "closing rd = EOF"
  then show "promptEdit rd out \<noteq> Some (Inl e, rd', out')"
    using promptEdit_error[of rd out e rd' out'] by auto
qed

text \<open>
  C9 on an input that fails in the middle of its second line, and on one that ends
  there.
\<close>

theorem chooseMessage_read_error_witness:
  "chooseMessage [''a''] \<lparr>pending = ''7\<newline>1'', closing = ReadFailure\<rparr> []
     = Some (Inl ReadInput, \<lparr>pending = [], closing = ReadFailure\<rparr>,
             ''Suggestions:\<newline>1. a\<newline>Choose 1-3 or type '' @ [CHR 0x27] @ ''e'' @ [CHR 0x27]
               @ '' to edit:\<newline>> Invalid choice. Try again.\<newline>> '')
   \<and> closing \<lparr>pending = ''7\<newline>1'', closing = ReadFailure\<rparr> = ReadFailure
   \<and> chooseMessage [''a''] \<lparr>pending = ''7\<newline>1'', closing = EOF\<rparr> []
     = Some (Inr ''a'', \<lparr>pending = [], closing = EOF\<rparr>,
             ''Suggestions:\<newline>1. a\<newline>Choose 1-3 or type '' @ [CHR 0x27] @ ''e'' @ [CHR 0x27]
               @ '' to edit:\<newline>> Invalid choice. Try again.\<newline>> '')"
proof -
  have h: "chooseMessage [''a''] \<lparr>pending = ''7\<newline>1'', closing = ReadFailure\<rparr> []
     = Some (Inl ReadInput, \<lparr>pending = [], closing = ReadFailure\<rparr>,
             ''Suggestions:\<newline>1. a\<newline>Choose 1-3 or type '' @ [CHR 0x27] @ ''e'' @ [CHR 0x27]
               @ '' to edit:\<newline>> Invalid choice. Try again.\<newline>> '')"
    by code_simp
  from chooseMessage_read_error[THEN conjunct1, rule_format, OF h]
  have c: "closing \<lparr>pending = ''7\<newline>1'', closing = ReadFailure\<rparr> = ReadFailure" by blast
  have e: "chooseMessage [''a''] \<lparr>pending = ''7\<newline>1'', closing = EOF\<rparr> []
     = Some (Inr ''a'', \<lparr>pending = [], closing = EOF\<rparr>,
             ''Suggestions:\<newline>1. a\<newline>Choose 1-3 or type '' @ [CHR 0x27] @ ''e'' @ [CHR 0x27]
               @ '' to edit:\<newline>> Invalid choice. Try again.\<newline>> '')"
    by code_simp
  from h c e show ?thesis by blast
qed

lemma chooseMessage_loop_at_EOF_aux:
  assumes "chooseMessage_loop msgs rd out = Some y"
  shows "pending rd \<noteq> [] \<or> closing rd \<noteq> EOF"
proof (rule chooseMessage_loop.raw_induct
    [where P = "\<lambda>msgs rd out y. pending rd \<noteq> [] \<or> closing rd \<noteq> EOF", OF _ assms])
  fix f msgs rd out y
  assume IH: "\<And>msgs rd out y. f msgs rd out = Some y \<Longrightarrow> pending rd \<noteq> [] \<or> closing rd \<noteq> EOF"
    and eq: "(case ReadString rd nl of
        ((line, err), rd') \<Rightarrow>
          if err = Some ReadFailure then Some (Inl ReadInput, rd', out @ ''> '')
          else if EqualFold_e (TrimSpace line) then promptEdit rd' (out @ ''> '')
          else if TrimSpace line = [] then f msgs rd' (out @ ''> '')
          else (case parseChoice (TrimSpace line) (int (length msgs)) of
                  Inl err \<Rightarrow> f msgs rd' (Println (out @ ''> '') ''Invalid choice. Try again.'')
                | Inr idx \<Rightarrow> Some (index_msgs msgs idx, rd', out @ ''> ''))) = Some y"
  show "pending rd \<noteq> [] \<or> closing rd \<noteq> EOF"
  proof (rule ccontr)
    assume "\<not> (pending rd \<noteq> [] \<or> closing rd \<noteq> EOF)"
    then have p: "pending rd = []" "closing rd = EOF" by simp_all
    then have r: "ReadString rd nl = (([], Some EOF), rd)"
      by (simp add: ReadString_def)
    have t: "TrimSpace [] = []"
      by (simp add: TrimSpace_def TrimLeftSpace_def TrimRightSpace_def)
    from eq have "f msgs rd (out @ ''> '') = Some y"
      by (simp add: r t EqualFold_e_def)
    from IH[OF this] p show False by blast
  qed
qed

text \<open>
  At the end of the input \<^verbatim>\<open>ReadString\<close> gives the empty line again and again, and the
  selector never returns.
\<close>

lemma chooseMessage_loop_at_EOF:
  assumes "pending rd = []" "closing rd = EOF"
  shows "chooseMessage_loop msgs rd out = None"
proof (cases "chooseMessage_loop msgs rd out")
  case None
  then show ?thesis .
next
  case (Some y)
  from chooseMessage_loop_at_EOF_aux[OF this] assms show ?thesis by blast
qed

text \<open>
  C10.  An index that \<^verbatim>\<open>parseChoice(s, max)\<close> returns without error lies between 0 and
  \<open>max - 1\<close>; so with \<open>max\<close> the length of the list, \<^verbatim>\<open>msgs[idx]\<close> is within bounds,
  and \<^verbatim>\<open>chooseMessage\<close> never panics.
\<close>

theorem parseChoice_index_in_bounds:
  "(parseChoice s m = Inr idx \<longrightarrow> 0 \<le> idx \<and> idx \<le> m - 1)
   \<and> (parseChoice s (int (length msgs)) = Inr idx \<longrightarrow>
         nat idx < length msgs \<and> index_msgs msgs idx = Inr (msgs ! nat idx))
   \<and> chooseMessage msgs rd out \<noteq> Some (Inl Panic, rd', out')"
proof (intro conjI impI)
  assume "parseChoice s m = Inr idx"
  then show "0 \<le> idx" "idx \<le> m - 1" using parseChoice_range by blast+
next
  assume "parseChoice s (int (length msgs)) = Inr idx"
  then show "nat idx < length msgs" "index_msgs msgs idx = Inr (msgs ! nat idx)"
    using index_msgs_parseChoice by blast+
next
  show "chooseMessage msgs rd out \<noteq> Some (Inl Panic, rd', out')"
    using chooseMessage_error[of msgs rd out Panic rd' out'] by auto
qed

text \<open>C10 on the choice 3 of three suggestions.\<close>

theorem parseChoice_index_in_bounds_witness:
  "parseChoice ''3'' (int (length [''a'', ''b'', ''c''])) = Inr 2
     \<and> (0 :: int) \<le> 2 \<and> (2 :: int) \<le> int (length [''a'', ''b'', ''c'']) - 1
     \<and> nat 2 < length [''a'', ''b'', ''c'']
     \<and> index_msgs [''a'', ''b'', ''c''] 2 = Inr ''c''"
proof -
  have h: "parseChoice ''3'' (int (length [''a'', ''b'', ''c''])) = Inr 2" by code_simp
  from parseChoice_index_in_bounds[THEN conjunct1, rule_format, OF h]
    parseChoice_index_in_bounds[THEN conjunct2, THEN conjunct1, rule_format, OF h] h
  show ?thesis by simp
qed

end
